theory Spec2Isabelle
  imports Main
begin

section \<open>Characters, strings and Python's built-ins\<close>

text \<open>
  Python strings are modelled as \<open>string\<close>. The copybook grammar is ASCII; characters
  beyond ASCII are outside this model (Python's \<open>upper\<close> and \<open>\d\<close> are Unicode-aware
  there). Python integers are \<open>int\<close>; list indices and offsets, which the code only
  ever counts upwards from 0, are \<open>nat\<close>.
\<close>

definition quote :: char where
  "quote = CHR 0x27"

definition newline :: char where
  "newline = CHR 0x0A"

definition tab :: char where
  "tab = CHR 0x09"

definition is_digit :: "char \<Rightarrow> bool" where
  \<comment> \<open>the regular-expression class \<open>\d\<close>\<close>
  "is_digit c = (c \<in> set ''0123456789'')"

definition digit_value :: "char \<Rightarrow> int" where
  "digit_value c = of_char c - 48"

definition upper_char :: "char \<Rightarrow> char" where
  "upper_char c =
     (case map_of (zip ''abcdefghijklmnopqrstuvwxyz'' ''ABCDEFGHIJKLMNOPQRSTUVWXYZ'') c of
        None \<Rightarrow> c
      | Some u \<Rightarrow> u)"

definition upper :: "string \<Rightarrow> string" where
  \<comment> \<open>\<open>str.upper()\<close>\<close>
  "upper s = map upper_char s"

definition py_isspace :: "char \<Rightarrow> bool" where
  \<comment> \<open>the characters \<open>int()\<close> strips from both ends of its argument\<close>
  "py_isspace c =
     (c \<in> {CHR 0x09, CHR 0x0A, CHR 0x0B, CHR 0x0C, CHR 0x0D,
            CHR 0x1C, CHR 0x1D, CHR 0x1E, CHR 0x1F, CHR 0x20, CHR 0x85, CHR 0xA0})"

definition strip :: "string \<Rightarrow> string" where
  "strip s = rev (dropWhile py_isspace (rev (dropWhile py_isspace s)))"

fun py_digits_loop :: "int \<Rightarrow> string \<Rightarrow> int option" where
  "py_digits_loop acc [] = Some acc"
| "py_digits_loop acc (c # cs) =
     (if is_digit c then py_digits_loop (10 * acc + digit_value c) cs
      else if c = CHR ''_'' then
        (case cs of
           [] \<Rightarrow> None
         | d # ds \<Rightarrow>
             if is_digit d then py_digits_loop (10 * acc + digit_value d) ds else None)
      else None)"

definition py_digits :: "string \<Rightarrow> int option" where
  "py_digits s =
     (case s of
        [] \<Rightarrow> None
      | c # cs \<Rightarrow> if is_digit c then py_digits_loop (digit_value c) cs else None)"

definition py_int :: "string \<Rightarrow> int option" where
  \<comment> \<open>\<open>int(s)\<close> on a string, base 10: surrounding whitespace, an optional sign, digits with
      single underscores between them. \<open>None\<close> is the \<open>ValueError\<close> of the source. (The
      interpreter's limit on the number of digits is not modelled.)\<close>
  "py_int s =
     (case strip s of
        [] \<Rightarrow> None
      | c # cs \<Rightarrow>
          if c = CHR ''-'' then map_option uminus (py_digits cs)
          else if c = CHR ''+'' then py_digits cs
          else py_digits (c # cs))"


section \<open>Data model\<close>

subsection \<open>picture.py\<close>

datatype PictureType = P_NONE | P_STRING | P_NUMERIC

record Picture =
  picture_type :: PictureType
  pic_length :: int
  pic_scale :: int
  pic_default :: string
  pic_signed :: bool

definition Picture_init :: Picture where
  "Picture_init =
     \<lparr>picture_type = P_NONE, pic_length = 0, pic_scale = 0, pic_default = '''',
      pic_signed = False\<rparr>"

subsection \<open>copybook.py\<close>

datatype NodeType = N_NONE | N_RECORD | N_PICTURE | N_ENUM

datatype UsageType = U_NONE | U_PACKED | U_DISPLAY | U_BINARY

record Node =
  node_name :: string
  node_type :: NodeType
  node_level :: int
  redefines :: "string option"
  occurs :: int
  node_picture :: "Picture option"
  usage :: UsageType
  enum_set :: "string list option"
  indexed_by :: "string option"

definition Node_init :: "string \<Rightarrow> int \<Rightarrow> NodeType \<Rightarrow> Node" where
  \<comment> \<open>\<open>Node(name, level, node_type)\<close> with the defaults of the constructor\<close>
  "Node_init name level ntype =
     \<lparr>node_name = name, node_type = ntype, node_level = level, redefines = None,
      occurs = 1, node_picture = None, usage = U_NONE, enum_set = None,
      indexed_by = None\<rparr>"

subsection \<open>Exceptions\<close>

datatype tokenize_State = TS_START | TS_TEXT | TS_WS | TS_PERIOD

text \<open>
  The messages of \<open>CopybookException\<close> are formatted strings; the model keeps their
  parts: which message it is, the text found, and the line and column of the token.
\<close>

datatype message =
    Expected_level_number string int int
  | Expected_identifier string int int
  | Expected_clause string int int
  | Expected_occurs_count string int int
  | Expected_PICTURE_definition string int int
  | Unexpected_USAGE_type int int
  | VALUE_without_PICTURE int int
  | Invalid_INDEXED_BY int int
  | Could_not_find_parent Node Node
  | Unhandled_state tokenize_State

datatype error =
    ParserError int int string
      \<comment> \<open>lexer.py: no rule matched at (line, column); the next ten characters\<close>
  | CopybookException message
  | TypeError
  | ValueError
  | IndexError
  | AttributeError


section \<open>lexer.py\<close>

text \<open>
  A match object is its group 0 and the list of its capture groups. A compiled pattern is
  the function \<open>pattern.match\<close>: from the text to a match anchored at its start, or none.
\<close>

type_synonym re_match = "string \<times> string list"

type_synonym re_pattern = "string \<Rightarrow> re_match option"

definition group :: "re_match \<Rightarrow> nat \<Rightarrow> error + string" where
  "group m k =
     (if k = 0 then Inr (fst m)
      else if k \<le> length (snd m) then Inr (snd m ! (k - 1))
      else Inl IndexError)"

text \<open>
  \<open>Rule.regex\<close> is \<open>None\<close> for the empty regular expression, which \<open>Rule.compile\<close>
  leaves without a pattern, and otherwise what the compiled expression matches.
\<close>

record 'e Rule =
  r_enum :: 'e
  regex :: "re_pattern option"
  r_group :: nat
  is_ws :: bool
  is_eof :: bool
  is_comment :: bool

record 'e Token =
  tk_enum :: 'e
  tk_text :: string
  tk_line :: int
  tk_col :: int

record Range =
  line_number :: int
  rg_start :: int
  rg_end :: int

record 'e Lexer =
  lx_data :: "string option"
  lx_tokens :: "'e Token list"
  lx_rules :: "'e Rule list"
  eof_rule :: "'e Rule option"

definition Lexer_init :: "string option \<Rightarrow> 'e Lexer" where
  "Lexer_init data = \<lparr>lx_data = data, lx_tokens = [], lx_rules = [], eof_rule = None\<rparr>"

definition add_rule :: "'e Lexer \<Rightarrow> 'e Rule \<Rightarrow> 'e Lexer" where
  "add_rule self rule =
     (let self = self\<lparr>lx_rules := lx_rules self @ [rule]\<rparr>
      in if is_eof rule then self\<lparr>eof_rule := Some rule\<rparr> else self)"

definition set_last_end :: "Range list \<Rightarrow> int \<Rightarrow> Range list" where
  \<comment> \<open>\<open>lines[-1].end = e\<close>; the list is never empty\<close>
  "set_last_end lines e = butlast lines @ [(last lines)\<lparr>rg_end := e\<rparr>]"

fun break_lines_loop :: "Range list \<Rightarrow> nat \<Rightarrow> string \<Rightarrow> Range list" where
  "break_lines_loop lines index [] = lines"
| "break_lines_loop lines index (c # cs) =
     (if c = newline then
        (let lines = set_last_end lines (int index)
         in break_lines_loop
              (lines @ [\<lparr>line_number = line_number (last lines) + 1,
                         rg_start = int index + 1, rg_end = 0\<rparr>])
              (index + 1) cs)
      else break_lines_loop lines (index + 1) cs)"

definition break_lines :: "string \<Rightarrow> Range list" where
  "break_lines data =
     set_last_end
       (break_lines_loop [\<lparr>line_number = 1, rg_start = 0, rg_end = 0\<rparr>] 0 data)
       (int (length data) - 1)"

fun find_line_col :: "Range list \<Rightarrow> int \<Rightarrow> (int \<times> int) option" where
  "find_line_col [] pos = None"
| "find_line_col (l # ls) pos =
     (if rg_start l \<le> pos \<and> pos \<le> rg_end l
      then Some (line_number l, pos - rg_start l + 1)
      else find_line_col ls pos)"

fun matched_rules :: "'e Rule list \<Rightarrow> string \<Rightarrow> ('e Rule \<times> re_match) list" where
  \<comment> \<open>the list \<open>matched\<close>: every rule with a pattern that matches, in registration order\<close>
  "matched_rules [] s = []"
| "matched_rules (rule # rules) s =
     (case regex rule of
        None \<Rightarrow> matched_rules rules s
      | Some pattern \<Rightarrow>
          (case pattern s of
             None \<Rightarrow> matched_rules rules s
           | Some m \<Rightarrow> (rule, m) # matched_rules rules s))"

fun longest_loop :: "nat \<Rightarrow> nat \<Rightarrow> nat \<Rightarrow> ('e Rule \<times> re_match) list \<Rightarrow> nat" where
  \<comment> \<open>the loop over \<open>range(len(matched))\<close> from position \<open>i\<close>, with the running \<open>ln\<close> and
      \<open>index\<close>\<close>
  "longest_loop ln index i [] = index"
| "longest_loop ln index i (rm # rest) =
     (if length (fst (snd rm)) > ln
      then longest_loop (length (fst (snd rm))) i (i + 1) rest
      else longest_loop ln index (i + 1) rest)"

definition longest_index :: "('e Rule \<times> re_match) list \<Rightarrow> nat" where
  "longest_index matched = longest_loop 0 0 0 matched"

text \<open>
  The inner loop of \<open>Lexer.parse\<close>. When the chosen match is empty the position does not
  advance and the source never leaves the loop; so the loop is a partial function, with
  \<open>None\<close> for not returning. The token trace that the source prints before it raises
  \<open>ParserError\<close> is output only and is not modelled.
\<close>

partial_function (option) parse_loop ::
  "'e Rule list \<Rightarrow> 'e Rule option \<Rightarrow> string \<Rightarrow> Range list \<Rightarrow> nat \<Rightarrow> 'e Token list
     \<Rightarrow> (error + 'e Token list) option"
where
  "parse_loop rules eof data lines curr_pos tokens =
     (case find_line_col lines (int curr_pos) of
        None \<Rightarrow> Some (Inl TypeError)
      | Some (line, col) \<Rightarrow>
          (case matched_rules rules (drop curr_pos data) of
             [] \<Rightarrow> Some (Inl (ParserError line col (take 10 (drop curr_pos data))))
           | rm # rms \<Rightarrow>
               (case (rm # rms) ! longest_index (rm # rms) of
                  (rule, matcher) \<Rightarrow>
                    (case (if \<not> (is_ws rule \<or> is_comment rule)
                           then (case group matcher (r_group rule) of
                                   Inl e \<Rightarrow> Inl e
                                 | Inr text \<Rightarrow>
                                     Inr (tokens @ [\<lparr>tk_enum = r_enum rule, tk_text = text,
                                                     tk_line = line, tk_col = col\<rparr>]))
                           else Inr tokens) of
                       Inl e \<Rightarrow> Some (Inl e)
                     | Inr tokens \<Rightarrow>
                         if curr_pos + length (fst matcher) \<ge> length data then
                           (case eof of
                              None \<Rightarrow> Some (Inr tokens)
                            | Some er \<Rightarrow>
                                Some (Inr (tokens @ [\<lparr>tk_enum = r_enum er,
                                                       tk_text = ''<EOF>'',
                                                       tk_line = line, tk_col = col\<rparr>])))
                         else parse_loop rules eof data lines
                                (curr_pos + length (fst matcher)) tokens))))"

definition parse ::
  "'e Lexer \<Rightarrow> string \<Rightarrow> (error + 'e Token list option \<times> 'e Lexer) option"
where
  \<comment> \<open>\<open>Lexer.parse(data)\<close>: the tokens returned (none when the data is empty: the source
      falls off the end of the method) and the lexer afterwards\<close>
  "parse self data =
     (let self = (if data \<noteq> [] then self\<lparr>lx_data := Some data, lx_tokens := []\<rparr> else self)
      in case lx_data self of
           None \<Rightarrow> Some (Inl TypeError)
         | Some d \<Rightarrow>
             if 0 < length d then
               (case parse_loop (lx_rules self) (eof_rule self) d (break_lines d) 0
                       (lx_tokens self) of
                  None \<Rightarrow> None
                | Some (Inl e) \<Rightarrow> Some (Inl e)
                | Some (Inr tokens) \<Rightarrow> Some (Inr (Some tokens, self\<lparr>lx_tokens := tokens\<rparr>)))
             else Some (Inr (None, self)))"


section \<open>picture.py\<close>

datatype TokenTypes = T_X | T_9 | T_V | T_S | T_LEN | T_EOL

datatype State =
    T_BEGIN | T_SINGLE_X | T_MULTI_X | T_SINGLE_9 | T_MULTI_9 | T_WAIT_EOL
  | T_WAIT_FIXED_POINT

subsection \<open>The regular expressions of the picture rules\<close>

definition re_X_plus :: re_pattern where
  \<comment> \<open>\<open>X+\<close> with \<open>re.IGNORECASE\<close>\<close>
  "re_X_plus s =
     (let m = takeWhile (\<lambda>c. c = CHR ''X'' \<or> c = CHR ''x'') s
      in if m = [] then None else Some (m, []))"

definition re_9_plus :: re_pattern where
  \<comment> \<open>\<open>9+\<close>\<close>
  "re_9_plus s =
     (let m = takeWhile (\<lambda>c. c = CHR ''9'') s
      in if m = [] then None else Some (m, []))"

definition re_char :: "char \<Rightarrow> re_pattern" where
  \<comment> \<open>a regular expression that is one literal character: \<open>V\<close>, \<open>S\<close>\<close>
  "re_char a s =
     (case s of
        [] \<Rightarrow> None
      | c # cs \<Rightarrow> if c = a then Some ([c], []) else None)"

definition re_len :: re_pattern where
  \<comment> \<open>\<open>\((\d+)\)\<close>: group 1 is the digits\<close>
  "re_len s =
     (case s of
        [] \<Rightarrow> None
      | c # cs \<Rightarrow>
          if c = CHR ''('' then
            (let ds = takeWhile is_digit cs
             in if ds = [] then None
                else (case dropWhile is_digit cs of
                        [] \<Rightarrow> None
                      | r # rs \<Rightarrow>
                          if r = CHR '')'' then Some (c # ds @ [r], [ds]) else None))
          else None)"

definition Rule_init :: "'e \<Rightarrow> re_pattern option \<Rightarrow> 'e Rule" where
  \<comment> \<open>\<open>Rule(enum, regex)\<close> with the defaults of the constructor\<close>
  "Rule_init enum rx =
     \<lparr>r_enum = enum, regex = rx, r_group = 0, is_ws = False, is_eof = False,
      is_comment = False\<rparr>"

record PictureDecoder =
  lexer :: "TokenTypes Lexer"

definition setup_lexer :: "TokenTypes Lexer" where
  "setup_lexer =
     (let lexer = Lexer_init None;
          lexer = add_rule lexer (Rule_init T_X (Some re_X_plus));
          lexer = add_rule lexer (Rule_init T_9 (Some re_9_plus));
          lexer = add_rule lexer (Rule_init T_V (Some (re_char (CHR ''V''))));
          lexer = add_rule lexer (Rule_init T_S (Some (re_char (CHR ''S''))));
          lexer = add_rule lexer ((Rule_init T_LEN (Some re_len))\<lparr>r_group := 1\<rparr>);
          lexer = add_rule lexer ((Rule_init T_EOL None)\<lparr>is_eof := True\<rparr>)
      in lexer)"

definition PictureDecoder_init :: PictureDecoder where
  "PictureDecoder_init = \<lparr>lexer = setup_lexer\<rparr>"

subsection \<open>The decoder's state machine\<close>

text \<open>
  One pass of the body of the \<open>while\<close> loop of \<open>decode\<close>, up to its final
  \<open>token_idx += 1\<close>: an exception, \<open>return None\<close>, or the token index, state and picture
  the body leaves behind.
\<close>

definition decode_step ::
  "TokenTypes Token list \<Rightarrow> nat \<Rightarrow> State \<Rightarrow> Picture
     \<Rightarrow> error + (nat \<times> State \<times> Picture) option"
where
  "decode_step tokens token_idx state picture =
     (let token = tokens ! token_idx in
      case state of
        T_BEGIN \<Rightarrow>
          if tk_enum token = T_X then
            if picture_type picture \<noteq> P_NONE then Inr None
            else
              (let picture = picture\<lparr>picture_type := P_STRING\<rparr>
               in if length (tk_text token) = 1
                  then Inr (Some (token_idx, T_SINGLE_X, picture))
                  else Inr (Some (token_idx, T_WAIT_EOL,
                         picture\<lparr>pic_length := int (length (tk_text token))\<rparr>)))
          else if tk_enum token = T_9 then
            (let picture = picture\<lparr>picture_type := P_NUMERIC\<rparr>
             in if length (tk_text token) = 1
                then Inr (Some (token_idx, T_SINGLE_9, picture))
                else Inr (Some (token_idx, T_WAIT_FIXED_POINT,
                       picture\<lparr>pic_length := int (length (tk_text token))\<rparr>)))
          else if tk_enum token = T_S then
            Inr (Some (token_idx, T_BEGIN,
              picture\<lparr>pic_signed := True, picture_type := P_NUMERIC\<rparr>))
          else if tk_enum token = T_V then
            Inr (Some (token_idx, T_WAIT_FIXED_POINT,
              picture\<lparr>pic_length := 0, picture_type := P_NUMERIC\<rparr>))
          else Inr None
      | T_SINGLE_X \<Rightarrow>
          if tk_enum token = T_LEN then
            (case py_int (tk_text token) of
               None \<Rightarrow> Inl ValueError
             | Some n \<Rightarrow> Inr (Some (token_idx, T_WAIT_EOL, picture\<lparr>pic_length := n\<rparr>)))
          else if tk_enum token = T_EOL then
            Inr (Some (token_idx, T_SINGLE_X, picture\<lparr>pic_length := 1\<rparr>))
          else Inr None
      | T_SINGLE_9 \<Rightarrow>
          if tk_enum token = T_LEN then
            (case py_int (tk_text token) of
               None \<Rightarrow> Inl ValueError
             | Some n \<Rightarrow>
                 Inr (Some (token_idx, T_WAIT_FIXED_POINT, picture\<lparr>pic_length := n\<rparr>)))
          else if tk_enum token = T_EOL then
            Inr (Some (token_idx, T_SINGLE_9, picture\<lparr>pic_length := 1\<rparr>))
          else if tk_enum token = T_V then
            Inr (Some (token_idx, T_WAIT_FIXED_POINT, picture))
          else Inr None
      | T_WAIT_FIXED_POINT \<Rightarrow>
          if tk_enum token = T_V then Inr (Some (token_idx, T_WAIT_FIXED_POINT, picture))
          else if tk_enum token = T_9 then
            if length (tk_text token) = 1 then
              if token_idx + 1 < length tokens then
                if tk_enum (tokens ! (token_idx + 1)) = T_LEN then
                  (case py_int (tk_text (tokens ! (token_idx + 1))) of
                     None \<Rightarrow> Inl ValueError
                   | Some n \<Rightarrow>
                       Inr (Some (token_idx + 1, T_WAIT_EOL,
                         picture\<lparr>pic_scale := n, pic_length := pic_length picture + n\<rparr>)))
                else
                  Inr (Some (token_idx, T_WAIT_EOL,
                    picture\<lparr>pic_scale := int (length (tk_text token)),
                            pic_length := pic_length picture + int (length (tk_text token))\<rparr>))
              else Inl IndexError
            else
              Inr (Some (token_idx, T_WAIT_EOL,
                picture\<lparr>pic_scale := int (length (tk_text token)),
                        pic_length := pic_length picture + int (length (tk_text token))\<rparr>))
          else if tk_enum token \<noteq> T_EOL then Inr None
          else Inr (Some (token_idx, T_WAIT_FIXED_POINT, picture))
      | T_WAIT_EOL \<Rightarrow>
          if tk_enum token \<noteq> T_EOL then Inr None
          else Inr (Some (token_idx, T_WAIT_EOL, picture))
      | _ \<Rightarrow>
          \<comment> \<open>\<open>T_MULTI_X\<close>, \<open>T_MULTI_9\<close>: the body has no branch for them\<close>
          Inr (Some (token_idx, state, picture)))"

function decode_loop ::
  "TokenTypes Token list \<Rightarrow> nat \<Rightarrow> State \<Rightarrow> Picture \<Rightarrow> error + Picture option"
where
  "decode_loop tokens token_idx state picture =
     (if token_idx < length tokens then
        (case decode_step tokens token_idx state picture of
           Inl e \<Rightarrow> Inl e
         | Inr None \<Rightarrow> Inr None
         | Inr (Some (idx, state, picture)) \<Rightarrow>
             decode_loop tokens (idx + 1) state picture)
      else Inr (Some picture))"
  by pat_completeness auto
termination
  by (relation "measure (\<lambda>(tokens, token_idx, state, picture). length tokens - token_idx)")
     (auto simp: decode_step_def Let_def split: State.splits if_splits option.splits)

definition decode ::
  "PictureDecoder \<Rightarrow> string \<Rightarrow> (error + Picture option \<times> PictureDecoder) option"
where
  \<comment> \<open>\<open>PictureDecoder.decode(pic)\<close>: what it returns, and the decoder afterwards (its
      lexer keeps the data and the tokens of the last call)\<close>
  "decode self pic =
     (case parse (lexer self) pic of
        None \<Rightarrow> None
      | Some (Inl e) \<Rightarrow> Some (Inl e)
      | Some (Inr (None, lx)) \<Rightarrow> Some (Inl TypeError)
      | Some (Inr (Some tokens, lx)) \<Rightarrow>
          (case decode_loop tokens 0 T_BEGIN
                  (Picture_init\<lparr>pic_signed := False, pic_length := 0\<rparr>) of
             Inl e \<Rightarrow> Some (Inl e)
           | Inr picture \<Rightarrow> Some (Inr (picture, self\<lparr>lexer := lx\<rparr>))))"


section \<open>copybook.py: the tokenizer\<close>

datatype TokenEnum = T_TEXT | T_PERIOD | T_EOF

text \<open>
  \<open>copybook.Token\<close> has the fields of \<open>lexer.Token\<close> and \<open>up_text\<close>, which is set once
  from the text; it is a function of the token here.
\<close>

definition up_text :: "'e Token \<Rightarrow> string" where
  "up_text token = upper (tk_text token)"

definition Token_init :: "'e \<Rightarrow> string \<Rightarrow> int \<Rightarrow> int \<Rightarrow> 'e Token" where
  "Token_init enum text line col =
     \<lparr>tk_enum = enum, tk_text = text, tk_line = line, tk_col = col\<rparr>"

record tokenize_vars =
  t_line :: int
  t_col :: int
  t_state :: tokenize_State
  t_tokens :: "TokenEnum Token list"
  s_token :: string

definition is_blank :: "char \<Rightarrow> bool" where
  \<comment> \<open>\<open>c in [' ', '\t', '\n']\<close>\<close>
  "is_blank c = (c = CHR '' '' \<or> c = tab \<or> c = newline)"

definition flush :: "tokenize_vars \<Rightarrow> tokenize_vars" where
  \<comment> \<open>\<open>if s_token: tokens.append(Token(T_TEXT, s_token, line, col)); s_token = ''\<close>\<close>
  "flush v =
     (if s_token v \<noteq> []
      then v\<lparr>t_tokens := t_tokens v @ [Token_init T_TEXT (s_token v) (t_line v) (t_col v)],
              s_token := []\<rparr>
      else v)"

definition period :: "tokenize_vars \<Rightarrow> tokenize_vars" where
  \<comment> \<open>\<open>tokens.append(Token(T_PERIOD, '.', line, col))\<close>\<close>
  "period v = v\<lparr>t_tokens := t_tokens v @ [Token_init T_PERIOD ''.'' (t_line v) (t_col v)]\<rparr>"

definition tokenize_step :: "char \<Rightarrow> tokenize_vars \<Rightarrow> error + tokenize_vars" where
  \<comment> \<open>the body of the loop over the characters, with its final \<open>col += 1\<close>\<close>
  "tokenize_step c v =
     (case
        (case t_state v of
           TS_START \<Rightarrow>
             if is_blank c then
               Inr ((if c = newline then v\<lparr>t_line := t_line v + 1, t_col := 0\<rparr> else v)
                      \<lparr>t_state := TS_WS\<rparr>)
             else if c = CHR ''.'' then Inr ((period (flush v))\<lparr>t_state := TS_START\<rparr>)
             else Inr (v\<lparr>s_token := s_token v @ [c]\<rparr>)
         | TS_WS \<Rightarrow>
             (let v = flush v
              in if is_blank c then
                   Inr (if c = newline then v\<lparr>t_state := TS_WS, t_line := t_line v + 1\<rparr>
                        else v\<lparr>t_state := TS_WS\<rparr>)
                 else if c = CHR ''.'' then Inr (period v)
                 else Inr (v\<lparr>s_token := [c], t_state := TS_START\<rparr>))
         | TS_PERIOD \<Rightarrow> Inr ((period (flush v))\<lparr>t_state := TS_START\<rparr>)
         | TS_TEXT \<Rightarrow> Inl (CopybookException (Unhandled_state (t_state v))))
      of
        Inl e \<Rightarrow> Inl e
      | Inr v \<Rightarrow> Inr (v\<lparr>t_col := t_col v + 1\<rparr>))"

fun tokenize_loop :: "string \<Rightarrow> tokenize_vars \<Rightarrow> error + tokenize_vars" where
  "tokenize_loop [] v = Inr v"
| "tokenize_loop (c # cs) v =
     (case tokenize_step c v of
        Inl e \<Rightarrow> Inl e
      | Inr v \<Rightarrow> tokenize_loop cs v)"

definition tokenize :: "string \<Rightarrow> error + TokenEnum Token list" where
  "tokenize text =
     (case tokenize_loop text
             \<lparr>t_line = 1, t_col = 1, t_state = TS_START, t_tokens = [], s_token = []\<rparr> of
        Inl e \<Rightarrow> Inl e
      | Inr v \<Rightarrow>
          Inr (t_tokens (flush v) @ [Token_init T_EOF ''(eof)'' (t_line v) (t_col v)]))"


section \<open>copybook.py: the parser\<close>

subsection \<open>The regular expressions of \<open>parse_copybook\<close>\<close>

definition re_int :: re_pattern where
  \<comment> \<open>\<open>\d+\<close>\<close>
  "re_int s =
     (let m = takeWhile is_digit s
      in if m = [] then None else Some (m, []))"

definition is_identifier_char :: "char \<Rightarrow> bool" where
  \<comment> \<open>the class \<open>[A-Za-z\d_\-]\<close>\<close>
  "is_identifier_char c =
     (c \<in> set ''ABCDEFGHIJKLMNOPQRSTUVWXYZabcdefghijklmnopqrstuvwxyz0123456789_-'')"

definition re_identifier :: re_pattern where
  \<comment> \<open>\<open>[A-Za-z\d_\-]+\<close>\<close>
  "re_identifier s =
     (let m = takeWhile is_identifier_char s
      in if m = [] then None else Some (m, []))"

definition re_string :: re_pattern where
  \<comment> \<open>\<open>\'([^']+)\'\<close>: group 1 is the text between the quotes\<close>
  "re_string s =
     (case s of
        [] \<Rightarrow> None
      | c # cs \<Rightarrow>
          if c = quote then
            (let body = takeWhile (\<lambda>x. x \<noteq> quote) cs
             in if body = [] then None
                else (case dropWhile (\<lambda>x. x \<noteq> quote) cs of
                        [] \<Rightarrow> None
                      | q # rest \<Rightarrow> Some (c # body @ [q], [body])))
          else None)"

subsection \<open>The state machine\<close>

datatype parse_State =
    S_START | S_SENTENCE | S_CLAUSE | S_REDEFINES | S_OCCURS | S_PICTURE | S_VALUE
  | S_USAGE | S_ENUM | S_INDEXED

definition decode_usage :: "string \<Rightarrow> UsageType option" where
  "decode_usage u =
     (if u = ''DISPLAY'' then Some U_DISPLAY
      else if u = ''BINARY'' then Some U_BINARY
      else if u \<in> set [''COMP-3'', ''COMPUTATIONAL-3''] then Some U_PACKED
      else None)"

text \<open>
  The variables of \<open>consume\<close>, and \<open>node_list\<close> of the enclosing function. A node is
  appended to \<open>node_list\<close> by the period that ends its sentence, and the next assignment to
  the variable \<open>node\<close> makes a new object, so an appended node is never changed: the list
  holds values.
\<close>

record consume_vars =
  c_state :: parse_State
  c_level :: int
  c_node :: "Node option"
  c_decoder :: PictureDecoder
  node_list :: "Node list"

datatype flow = Return consume_vars | Next nat consume_vars

definition with_node ::
  "consume_vars \<Rightarrow> (Node \<Rightarrow> (error + flow) option) \<Rightarrow> (error + flow) option"
where
  \<comment> \<open>an attribute of \<open>node\<close> is read or written: \<open>AttributeError\<close> while it is \<open>None\<close>\<close>
  "with_node v f = (case c_node v of None \<Rightarrow> Some (Inl AttributeError) | Some n \<Rightarrow> f n)"

definition value_text :: "TokenEnum Token \<Rightarrow> string" where
  \<comment> \<open>\<open>match.group(0)\<close> if \<open>re_string\<close> matches the token's text, else the text\<close>
  "value_text token =
     (case re_string (tk_text token) of
        Some m \<Rightarrow> fst m
      | None \<Rightarrow> tk_text token)"

text \<open>
  One pass of the body of the \<open>while\<close> loop of \<open>consume\<close>, up to its final
  \<open>token_idx += 1\<close>: not returning (\<open>None\<close>), an exception, \<open>return\<close>, or the token index
  and variables the body leaves behind.
\<close>

definition consume_step ::
  "TokenEnum Token list \<Rightarrow> nat \<Rightarrow> consume_vars \<Rightarrow> (error + flow) option"
where
  "consume_step tokens token_idx v =
     (let token = tokens ! token_idx in
      case c_state v of
        S_START \<Rightarrow>
          if up_text token = ''EJECT'' then Some (Inr (Next token_idx (v\<lparr>c_state := S_START\<rparr>)))
          else if tk_enum token = T_TEXT \<and> re_int (tk_text token) \<noteq> None then
            (case py_int (tk_text token) of
               None \<Rightarrow> Some (Inl ValueError)
             | Some n \<Rightarrow>
                 Some (Inr (Next token_idx (v\<lparr>c_level := n, c_state := S_SENTENCE\<rparr>))))
          else if tk_enum token = T_EOF then Some (Inr (Return v))
          else Some (Inl (CopybookException
                 (Expected_level_number (tk_text token) (tk_line token) (tk_col token))))
      | S_SENTENCE \<Rightarrow>
          if tk_enum token = T_TEXT \<and> re_identifier (tk_text token) \<noteq> None then
            Some (Inr (Next token_idx
              (v\<lparr>c_node := Some (Node_init (tk_text token) (c_level v) N_NONE),
                 c_state := S_CLAUSE\<rparr>)))
          else Some (Inl (CopybookException
                 (Expected_identifier (tk_text token) (tk_line token) (tk_col token))))
      | S_CLAUSE \<Rightarrow>
          if tk_enum token = T_PERIOD then
            with_node v (\<lambda>n.
              let ntype = (if node_picture n \<noteq> None then N_PICTURE
                           else if enum_set n \<noteq> None \<and> enum_set n \<noteq> Some [] then N_ENUM
                           else N_RECORD);
                  n = n\<lparr>node_type := ntype\<rparr>
              in Some (Inr (Next token_idx
                   (v\<lparr>c_node := Some n, node_list := node_list v @ [n],
                      c_state := S_START\<rparr>))))
          else if up_text token = ''REDEFINES'' then
            Some (Inr (Next token_idx (v\<lparr>c_state := S_REDEFINES\<rparr>)))
          else if up_text token = ''OCCURS'' then
            Some (Inr (Next token_idx (v\<lparr>c_state := S_OCCURS\<rparr>)))
          else if up_text token \<in> set [''PIC'', ''PICTURE''] then
            Some (Inr (Next token_idx (v\<lparr>c_state := S_PICTURE\<rparr>)))
          else if up_text token = ''VALUE'' then
            Some (Inr (Next token_idx (v\<lparr>c_state := S_VALUE\<rparr>)))
          else if up_text token = ''USAGE'' then
            Some (Inr (Next token_idx (v\<lparr>c_state := S_USAGE\<rparr>)))
          else if up_text token
                    \<in> set [''DISPLAY'', ''BINARY'', ''COMP-3'', ''COMPUTATIONAL-3''] then
            (case decode_usage (up_text token) of
               None \<Rightarrow> Some (Inl (CopybookException
                         (Unexpected_USAGE_type (tk_line token) (tk_col token))))
             | Some u \<Rightarrow>
                 with_node v (\<lambda>n.
                   Some (Inr (Next token_idx
                     (v\<lparr>c_node := Some (n\<lparr>usage := u\<rparr>), c_state := S_CLAUSE\<rparr>)))))
          else if tk_text token = ''INDEXED'' then
            Some (Inr (Next token_idx (v\<lparr>c_state := S_INDEXED\<rparr>)))
          else Some (Inl (CopybookException
                 (Expected_clause (tk_text token) (tk_line token) (tk_col token))))
      | S_REDEFINES \<Rightarrow>
          if tk_enum token = T_TEXT then
            with_node v (\<lambda>n.
              Some (Inr (Next token_idx
                (v\<lparr>c_node := Some (n\<lparr>redefines := Some (tk_text token)\<rparr>),
                   c_state := S_CLAUSE\<rparr>))))
          else Some (Inl (CopybookException
                 (Expected_identifier (tk_text token) (tk_line token) (tk_col token))))
      | S_OCCURS \<Rightarrow>
          if tk_enum token = T_TEXT \<and> re_int (tk_text token) \<noteq> None then
            (case py_int (tk_text token) of
               None \<Rightarrow> Some (Inl ValueError)
             | Some k \<Rightarrow>
                 with_node v (\<lambda>n.
                   let v = v\<lparr>c_node := Some (n\<lparr>occurs := k\<rparr>)\<rparr>
                   in if token_idx + 1 < length tokens then
                        if up_text (tokens ! (token_idx + 1)) = ''TIMES''
                        then Some (Inr (Next (token_idx + 1) (v\<lparr>c_state := S_CLAUSE\<rparr>)))
                        else Some (Inr (Next token_idx (v\<lparr>c_state := S_CLAUSE\<rparr>)))
                      else Some (Inl IndexError)))
          else Some (Inl (CopybookException
                 (Expected_occurs_count (tk_text token) (tk_line token) (tk_col token))))
      | S_PICTURE \<Rightarrow>
          (case decode (c_decoder v) (up_text token) of
             None \<Rightarrow> None
           | Some (Inl e) \<Rightarrow> Some (Inl e)
           | Some (Inr (None, decoder)) \<Rightarrow>
               Some (Inl (CopybookException
                 (Expected_PICTURE_definition (tk_text token) (tk_line token) (tk_col token))))
           | Some (Inr (Some picture, decoder)) \<Rightarrow>
               with_node v (\<lambda>n.
                 Some (Inr (Next token_idx
                   (v\<lparr>c_decoder := decoder, c_node := Some (n\<lparr>node_picture := Some picture\<rparr>),
                      c_state := S_CLAUSE\<rparr>)))))
      | S_VALUE \<Rightarrow>
          with_node v (\<lambda>n.
            case node_picture n of
              Some picture \<Rightarrow>
                Some (Inr (Next token_idx
                  (v\<lparr>c_node :=
                       Some (n\<lparr>node_picture :=
                                 Some (picture\<lparr>pic_default := value_text token\<rparr>)\<rparr>)\<rparr>)))
            | None \<Rightarrow>
                if c_level v = 88 then
                  (let v = v\<lparr>c_node := Some (n\<lparr>enum_set := Some [value_text token]\<rparr>)\<rparr>
                   in if token_idx + 1 < length tokens then
                        if tk_enum (tokens ! (token_idx + 1)) = T_PERIOD
                        then Some (Inr (Next token_idx (v\<lparr>c_state := S_CLAUSE\<rparr>)))
                        else Some (Inr (Next token_idx (v\<lparr>c_state := S_ENUM\<rparr>)))
                      else Some (Inl IndexError))
                else Some (Inl (CopybookException
                       (VALUE_without_PICTURE (tk_line token) (tk_col token)))))
      | S_USAGE \<Rightarrow>
          if up_text token = ''IS'' then Some (Inr (Next token_idx (v\<lparr>c_state := S_USAGE\<rparr>)))
          else
            (case decode_usage (up_text token) of
               None \<Rightarrow> Some (Inl (CopybookException
                         (Unexpected_USAGE_type (tk_line token) (tk_col token))))
             | Some u \<Rightarrow>
                 with_node v (\<lambda>n.
                   Some (Inr (Next token_idx
                     (v\<lparr>c_node := Some (n\<lparr>usage := u\<rparr>), c_state := S_CLAUSE\<rparr>)))))
      | S_ENUM \<Rightarrow>
          with_node v (\<lambda>n.
            case enum_set n of
              None \<Rightarrow> Some (Inl AttributeError)
            | Some values \<Rightarrow>
                (let v = v\<lparr>c_node := Some (n\<lparr>enum_set := Some (values @ [value_text token])\<rparr>)\<rparr>
                 in if token_idx + 1 < length tokens then
                      if tk_enum (tokens ! (token_idx + 1)) = T_PERIOD
                      then Some (Inr (Next token_idx (v\<lparr>c_state := S_CLAUSE\<rparr>)))
                      else Some (Inr (Next token_idx (v\<lparr>c_state := S_ENUM\<rparr>)))
                    else Some (Inl IndexError)))
      | S_INDEXED \<Rightarrow>
          if tk_text token = ''BY'' then
            Some (Inr (Next token_idx (v\<lparr>c_state := S_INDEXED\<rparr>)))
          else if tk_enum token = T_TEXT then
            with_node v (\<lambda>n.
              Some (Inr (Next token_idx
                (v\<lparr>c_node := Some (n\<lparr>indexed_by := Some (tk_text token)\<rparr>),
                   c_state := S_CLAUSE\<rparr>))))
          else Some (Inl (CopybookException
                 (Invalid_INDEXED_BY (tk_line token) (tk_col token)))))"

function consume ::
  "TokenEnum Token list \<Rightarrow> nat \<Rightarrow> consume_vars \<Rightarrow> (error + Node list) option"
where
  "consume tokens token_idx v =
     (if token_idx < length tokens then
        (case consume_step tokens token_idx v of
           None \<Rightarrow> None
         | Some (Inl e) \<Rightarrow> Some (Inl e)
         | Some (Inr (Return v)) \<Rightarrow> Some (Inr (node_list v))
         | Some (Inr (Next idx v)) \<Rightarrow> consume tokens (idx + 1) v)
      else Some (Inr (node_list v)))"
  by pat_completeness auto
termination
  by (relation "measure (\<lambda>(tokens, token_idx, v). length tokens - token_idx)")
     (auto simp: consume_step_def with_node_def Let_def
           split: parse_State.splits if_splits option.splits sum.splits prod.splits)

definition parse_copybook :: "string \<Rightarrow> (error + Node list) option" where
  "parse_copybook copybook =
     (case tokenize copybook of
        Inl e \<Rightarrow> Some (Inl e)
      | Inr tokens \<Rightarrow>
          consume tokens 0
            \<lparr>c_state = S_START, c_level = 0, c_node = None, c_decoder = PictureDecoder_init,
             node_list = []\<rparr>)"


section \<open>copybook.py: the tree\<close>

text \<open>
  \<open>TreeNode\<close> objects refer to each other (\<open>parent\<close>, \<open>children\<close>) and are changed after
  they are made (\<open>append\<close>), so they live in a store: the list of all objects made so far,
  a reference being an index into it, and \<open>None\<close> being \<open>None\<close>.
\<close>

record TreeNode =
  tn_node :: Node
  tn_parent :: "nat option"
  tn_children :: "nat list"

type_synonym store = "TreeNode list"

definition TreeNode_init :: "store \<Rightarrow> Node \<Rightarrow> nat option \<Rightarrow> store \<times> nat" where
  \<comment> \<open>\<open>TreeNode(node, parent)\<close>: the store with the new object, and the reference to it\<close>
  "TreeNode_init h n p =
     (h @ [\<lparr>tn_node = n, tn_parent = p, tn_children = []\<rparr>], length h)"

definition append_child :: "store \<Rightarrow> nat \<Rightarrow> nat \<Rightarrow> store" where
  \<comment> \<open>\<open>TreeNode.append\<close>: \<open>self.children.append(node)\<close>\<close>
  "append_child h self n = h[self := (h ! self)\<lparr>tn_children := tn_children (h ! self) @ [n]\<rparr>]"

definition level_of :: "store \<Rightarrow> nat \<Rightarrow> int" where
  \<comment> \<open>\<open>t.node.node_level\<close>\<close>
  "level_of h t = node_level (tn_node (h ! t))"

text \<open>
  The \<open>while\<close> loop that moves \<open>search\<close> up the parents. It follows references for as
  long as it is told to, so it is a partial function; the value is the final \<open>search\<close>.
\<close>

partial_function (option) search_loop ::
  "store \<Rightarrow> Node \<Rightarrow> nat option \<Rightarrow> (error + nat) option"
where
  "search_loop h n search =
     (case search of
        None \<Rightarrow> Some (Inl AttributeError)
      | Some s \<Rightarrow>
          if level_of h s \<noteq> 0 \<and> level_of h s \<noteq> node_level n
          then search_loop h n (tn_parent (h ! s))
          else Some (Inr s))"

definition attach :: "store \<times> nat \<Rightarrow> Node \<Rightarrow> (error + store \<times> nat) option" where
  \<comment> \<open>the body of the loop over \<open>node_list\<close>, on the store and \<open>ptr\<close>\<close>
  "attach hp n =
     (let h = fst hp; ptr = snd hp in
      if node_level n > level_of h ptr then
        (let (h, new_node) = TreeNode_init h n (Some ptr)
         in Some (Inr (append_child h ptr new_node, new_node)))
      else if node_level n = level_of h ptr then
        (let (h', new_node) = TreeNode_init h n (tn_parent (h ! ptr))
         in case tn_parent (h ! ptr) of
              None \<Rightarrow> Some (Inl AttributeError)
            | Some p \<Rightarrow> Some (Inr (append_child h' p new_node, new_node)))
      else
        (case search_loop h n (tn_parent (h ! ptr)) of
           None \<Rightarrow> None
         | Some (Inl e) \<Rightarrow> Some (Inl e)
         | Some (Inr search) \<Rightarrow>
             if level_of h search = 0 then
               Some (Inl (CopybookException (Could_not_find_parent n (tn_node (h ! ptr)))))
             else
               (let (h', new_node) = TreeNode_init h n (tn_parent (h ! search))
                in case tn_parent (h ! search) of
                     None \<Rightarrow> Some (Inl AttributeError)
                   | Some p \<Rightarrow> Some (Inr (append_child h' p new_node, new_node)))))"

fun build_loop :: "store \<times> nat \<Rightarrow> Node list \<Rightarrow> (error + store \<times> nat) option" where
  "build_loop hp [] = Some (Inr hp)"
| "build_loop hp (n # ns) =
     (case attach hp n of
        None \<Rightarrow> None
      | Some (Inl e) \<Rightarrow> Some (Inl e)
      | Some (Inr hp') \<Rightarrow> build_loop hp' ns)"

definition root_node :: Node where
  "root_node = Node_init ''Root'' 0 N_RECORD"

definition build_node_tree :: "Node list \<Rightarrow> (error + store \<times> nat) option" where
  \<comment> \<open>the store at the end, and the reference to \<open>root\<close> that is returned\<close>
  "build_node_tree ns =
     (let (h, root) = TreeNode_init [] root_node None
      in case build_loop (h, root) ns of
           None \<Rightarrow> None
         | Some (Inl e) \<Rightarrow> Some (Inl e)
         | Some (Inr (h', ptr)) \<Rightarrow> Some (Inr (h', root)))"


section \<open>Notions used by the statements\<close>

definition returned :: "(error + 'a \<times> 's) option \<Rightarrow> (error + 'a) option" where
  \<comment> \<open>what a call returns or raises, without the object state it leaves behind\<close>
  "returned r = map_option (map_sum id fst) r"

definition sample_copybook :: string where
  "sample_copybook =
     ''01 REC.'' @ [newline] @ ''  05 FIELD-A PIC X(10).'' @ [newline] @
     ''  05 FIELD-B PIC 9(5)V99 USAGE COMP-3.''"





definition TreeNode_invariant :: "store \<Rightarrow> nat \<Rightarrow> bool" where
  \<comment> \<open>the tree in store \<open>h\<close> under \<open>root\<close>: a synthetic root of level 0 without a parent;
      every other object has a parent made before it and is among that parent's children;
      a child is a child of its parent, at a level strictly greater; the children of one
      parent share one level\<close>
  "TreeNode_invariant h root \<longleftrightarrow>
     root < length h \<and> tn_node (h ! root) = root_node \<and> tn_parent (h ! root) = None
     \<and> (\<forall>t<length h. t \<noteq> root \<longrightarrow>
           (\<exists>p<t. tn_parent (h ! t) = Some p \<and> t \<in> set (tn_children (h ! p))))
     \<and> (\<forall>p<length h. \<forall>c\<in>set (tn_children (h ! p)).
           c < length h \<and> tn_parent (h ! c) = Some p \<and> level_of h p < level_of h c)
     \<and> (\<forall>p<length h. \<forall>c\<in>set (tn_children (h ! p)). \<forall>d\<in>set (tn_children (h ! p)).
           level_of h c = level_of h d)"

definition build_invariant :: "store \<times> nat \<Rightarrow> bool" where
  \<comment> \<open>the invariant of the loop of \<open>build_node_tree\<close>: \<open>ptr\<close> is the object made last, and
      all objects but the root have a positive level\<close>
  "build_invariant hp \<longleftrightarrow>
     TreeNode_invariant (fst hp) 0 \<and> snd hp + 1 = length (fst hp)
     \<and> (\<forall>t<length (fst hp). t \<noteq> 0 \<longrightarrow> 0 < level_of (fst hp) t)"

definition attached :: "store \<Rightarrow> Node \<Rightarrow> nat \<Rightarrow> store \<times> nat" where
  \<comment> \<open>the store and \<open>ptr\<close> after \<open>new_node = TreeNode(n, p); p.append(new_node);
      ptr = new_node\<close>\<close>
  "attached h n p =
     (append_child (h @ [\<lparr>tn_node = n, tn_parent = Some p, tn_children = []\<rparr>]) p (length h),
      length h)"

inductive ancestor :: "store \<Rightarrow> nat \<Rightarrow> nat \<Rightarrow> bool" for h :: store where
  parent: "tn_parent (h ! t) = Some p \<Longrightarrow> ancestor h p t"
| above: "tn_parent (h ! t) = Some p \<Longrightarrow> ancestor h a p \<Longrightarrow> ancestor h a t"

definition initial :: "store \<times> nat" where
  \<comment> \<open>the store and \<open>ptr\<close> before the loop: \<open>root = TreeNode(Node('Root', 0, N_RECORD), None);
      ptr = root\<close>\<close>
  "initial = TreeNode_init [] root_node None"

definition sample_nodes :: "Node list" where
  \<comment> \<open>levels 1, 5, 10, then 5 again: the last node skips back over level 10\<close>
  "sample_nodes =
     [Node_init ''A'' 1 N_RECORD, Node_init ''B'' 5 N_RECORD, Node_init ''C'' 10 N_RECORD,
      Node_init ''D'' 5 N_RECORD]"


definition sample_store :: store where
  \<comment> \<open>the store after the nodes A (level 1), B (level 5) and C (level 10): each is the
      child of the one before, and \<open>ptr\<close> is C, at index 3\<close>
  "sample_store =
     fst (attached
           (fst (attached
                  (fst (attached (fst initial) (Node_init ''A'' 1 N_RECORD) 0))
                  (Node_init ''B'' 5 N_RECORD) 1))
           (Node_init ''C'' 10 N_RECORD) 2)"


definition store_A :: store where
  \<comment> \<open>the store after the single node A of level 1: the root at index 0, and A, its child
      and the \<open>ptr\<close>, at index 1\<close>
  "store_A = fst (attached (fst initial) (Node_init ''A'' 1 N_RECORD) 0)"

definition is_text_char :: "char \<Rightarrow> bool" where
  \<comment> \<open>a character that is neither whitespace (for the tokenizer: space, tab, newline) nor
      a period\<close>
  "is_text_char c \<longleftrightarrow> \<not> is_blank c \<and> c \<noteq> CHR ''.''"

text \<open>
  Following the specification's words, not the code: the tokens of a text are a PERIOD
  token for each period and a TEXT token for each maximal run of characters that are
  neither whitespace nor periods, in source order. Each comes with a line number, where
  \<open>line\<close> is the line of the first character of the text and every newline starts a new
  line. A period has the line it stands on. A run has the line counter's value at the
  moment the run is closed: its own line, or the next one if a newline ends the run.
\<close>

function spec_tokens :: "int \<Rightarrow> string \<Rightarrow> (TokenEnum \<times> string \<times> int) list" where
  "spec_tokens line [] = []"
| "spec_tokens line (c # cs) =
     (if c = CHR ''.'' then (T_PERIOD, ''.'', line) # spec_tokens line cs
      else if c = newline then spec_tokens (line + 1) cs
      else if is_blank c then spec_tokens line cs
      else (T_TEXT, takeWhile is_text_char (c # cs),
              (case dropWhile is_text_char (c # cs) of
                 [] \<Rightarrow> line
               | d # ds \<Rightarrow> if d = newline then line + 1 else line))
           # spec_tokens line (dropWhile is_text_char (c # cs)))"
  by pat_completeness auto
termination
  by (relation "measure (\<lambda>(line, s). length s)")
     (auto simp: is_text_char_def intro: le_imp_less_Suc length_dropWhile_le)

definition described :: "TokenEnum Token \<Rightarrow> TokenEnum \<times> string \<times> int" where
  \<comment> \<open>a token without its column\<close>
  "described t = (tk_enum t, tk_text t, tk_line t)"

definition expected :: "tokenize_vars \<Rightarrow> string \<Rightarrow> (TokenEnum \<times> string \<times> int) list" where
  \<comment> \<open>what is still to come when the loop of \<open>tokenize\<close> stands before the characters
      \<open>cs\<close>: in the start state the run in \<open>s_token\<close> is still open, in the whitespace state
      it is closed\<close>
  "expected v cs =
     (if t_state v = TS_START then spec_tokens (t_line v) (s_token v @ cs)
      else (if s_token v = [] then [] else [(T_TEXT, s_token v, t_line v)])
           @ spec_tokens (t_line v) cs)"

definition tokenizing :: "tokenize_vars \<Rightarrow> bool" where
  \<comment> \<open>the states the loop of \<open>tokenize\<close> is ever in\<close>
  "tokenizing v \<longleftrightarrow>
     (t_state v = TS_START \<or> t_state v = TS_WS) \<and> list_all is_text_char (s_token v)"


section \<open>Evaluation\<close>

text \<open>
  The two partial functions are evaluated on concrete inputs through their defining
  equations.
\<close>

declare parse_loop.simps [code]
declare search_loop.simps [code]


section \<open>The picture decoder\<close>

text \<open>
  C1, as the code has it. \<open>decode\<close> on \<open>XQ\<close> does not return: the lexer finds no rule for
  \<open>Q\<close> and raises its \<open>ParserError\<close> for line 1, column 2, which neither \<open>decode\<close> nor
  \<open>parse_copybook\<close> catches. \<open>decode\<close> returns \<open>None\<close> when the text tokenizes and the
  tokens fit no transition, as for \<open>XX9\<close>; \<open>parse_copybook\<close> then raises its
  \<open>CopybookException\<close> for the token of the PIC clause.
\<close>

theorem decode_XQ_raises_ParserError:
  "returned (decode PictureDecoder_init ''XQ'') = Some (Inl (ParserError 1 2 ''Q''))
   \<and> parse_copybook ''05 A PIC XQ.'' = Some (Inl (ParserError 1 2 ''Q''))
   \<and> returned (decode PictureDecoder_init ''XX9'') = Some (Inr None)
   \<and> parse_copybook ''05 A PIC XX9.''
       = Some (Inl (CopybookException (Expected_PICTURE_definition ''XX9'' 1 13)))"
  by code_simp

text \<open>
  C1, as the claim states it, fails: \<open>decode\<close> on \<open>XQ\<close> does not return \<open>None\<close>.
\<close>

theorem decode_XQ_not_None:
  "returned (decode PictureDecoder_init ''XQ'') \<noteq> Some (Inr None)"
  by code_simp

text \<open>
  C2: \<open>decode\<close> maps \<open>X(20)\<close> to a string picture of length 20, \<open>S9(5)V99\<close> to a signed
  numeric picture of length 7 and scale 2, and \<open>V9(02)\<close> to a numeric picture of length 2
  and scale 2.
\<close>

theorem decode_samples:
  "returned (decode PictureDecoder_init ''X(20)'')
     = Some (Inr (Some \<lparr>picture_type = P_STRING, pic_length = 20, pic_scale = 0,
                        pic_default = [], pic_signed = False\<rparr>))
   \<and> returned (decode PictureDecoder_init ''S9(5)V99'')
     = Some (Inr (Some \<lparr>picture_type = P_NUMERIC, pic_length = 7, pic_scale = 2,
                        pic_default = [], pic_signed = True\<rparr>))
   \<and> returned (decode PictureDecoder_init ''V9(02)'')
     = Some (Inr (Some \<lparr>picture_type = P_NUMERIC, pic_length = 2, pic_scale = 2,
                        pic_default = [], pic_signed = False\<rparr>))"
  by code_simp


section \<open>The copybook parser\<close>

text \<open>
  C3: \<open>parse_copybook\<close> on the sample copybook returns exactly three nodes, in source
  order: the record REC at level 1, the string field FIELD-A of length 10 at level 5, and
  the numeric field FIELD-B of length 7 and scale 2 with packed usage at level 5.
\<close>

theorem parse_sample_copybook:
  "parse_copybook sample_copybook
     = Some (Inr
         [Node_init ''REC'' 1 N_RECORD,
          (Node_init ''FIELD-A'' 5 N_PICTURE)
            \<lparr>node_picture := Some \<lparr>picture_type = P_STRING, pic_length = 10, pic_scale = 0,
                                    pic_default = [], pic_signed = False\<rparr>\<rparr>,
          (Node_init ''FIELD-B'' 5 N_PICTURE)
            \<lparr>node_picture := Some \<lparr>picture_type = P_NUMERIC, pic_length = 7, pic_scale = 2,
                                    pic_default = [], pic_signed = False\<rparr>,
              usage := U_PACKED\<rparr>])"
  by code_simp

text \<open>
  C5, on the code: a quoted literal is stored with its quotes. The value taken from the
  token \<open>'A'\<close> is \<open>'A'\<close> (group 0 of the match, not group 1), and the enumeration of
  \<open>88 FLAG VALUE 'A' 'B'.\<close> holds \<open>'A'\<close> and \<open>'B'\<close>, quotes included.
\<close>

theorem quoted_literal_keeps_quotes:
  "value_text (Token_init T_TEXT ([quote] @ ''A'' @ [quote]) 1 1) = [quote] @ ''A'' @ [quote]
   \<and> parse_copybook (''88 FLAG VALUE '' @ [quote] @ ''A'' @ [quote] @ '' ''
                        @ [quote] @ ''B'' @ [quote] @ ''.'')
       = Some (Inr [(Node_init ''FLAG'' 88 N_ENUM)
                      \<lparr>enum_set := Some [[quote] @ ''A'' @ [quote],
                                         [quote] @ ''B'' @ [quote]]\<rparr>])"
  by code_simp

text \<open>
  C9: there are inputs on which \<open>parse_copybook\<close> raises \<open>ValueError\<close>, which is no
  \<open>CopybookException\<close> and carries no position: a level number or an occurs count that
  starts with digits and goes on with something else, as in \<open>01A REC.\<close> and
  \<open>01 A OCCURS 3X.\<close>
\<close>

theorem int_conversion_raises_ValueError:
  "parse_copybook ''01A REC.'' = Some (Inl ValueError)
   \<and> parse_copybook ''01 A OCCURS 3X.'' = Some (Inl ValueError)"
  by code_simp

section \<open>The lexer engine\<close>






section \<open>The tree builder\<close>

lemma level_of_root: "level_of [\<lparr>tn_node = root_node, tn_parent = None, tn_children = []\<rparr>] 0 = 0"
  by (simp add: level_of_def root_node_def Node_init_def)

lemma build_invariant_initial: "build_invariant initial"
  by (simp add: build_invariant_def initial_def TreeNode_init_def TreeNode_invariant_def)

lemma invariant_root_level:
  assumes "TreeNode_invariant h 0"
  shows "level_of h 0 = 0"
  using assms by (simp add: TreeNode_invariant_def level_of_def root_node_def Node_init_def)

lemma invariant_root_parent:
  assumes "TreeNode_invariant h 0"
  shows "tn_parent (h ! 0) = None"
  using assms by (simp add: TreeNode_invariant_def)

lemma invariant_parent:
  assumes "TreeNode_invariant h 0" and "t < length h" and "t \<noteq> 0"
  shows "\<exists>p<t. tn_parent (h ! t) = Some p \<and> t \<in> set (tn_children (h ! p))"
  using assms unfolding TreeNode_invariant_def by blast

lemma invariant_child:
  assumes "TreeNode_invariant h 0" and "p < length h" and "c \<in> set (tn_children (h ! p))"
  shows "c < length h \<and> tn_parent (h ! c) = Some p \<and> level_of h p < level_of h c"
  using assms unfolding TreeNode_invariant_def by blast

lemma invariant_siblings:
  assumes "TreeNode_invariant h 0" and "p < length h" and "c \<in> set (tn_children (h ! p))"
    and "d \<in> set (tn_children (h ! p))"
  shows "level_of h c = level_of h d"
  using assms unfolding TreeNode_invariant_def by blast

lemma search_loop_returns:
  assumes inv: "TreeNode_invariant h 0"
  shows "s < length h \<Longrightarrow>
     \<exists>r\<le>s. search_loop h n (Some s) = Some (Inr r)
        \<and> (level_of h r = 0 \<or> level_of h r = node_level n)"
proof (induction s rule: less_induct)
  case (less s)
  show ?case
  proof (cases "level_of h s \<noteq> 0 \<and> level_of h s \<noteq> node_level n")
    case True
    then have "s \<noteq> 0" using invariant_root_level [OF inv] by (cases "s = 0") auto
    then obtain p where p: "p < s" "tn_parent (h ! s) = Some p"
      using invariant_parent [OF inv less.prems] by blast
    have "p < length h" using p(1) less.prems by simp
    from less.IH [OF p(1) this] obtain r where
      r: "r \<le> p" "search_loop h n (Some p) = Some (Inr r)"
         "level_of h r = 0 \<or> level_of h r = node_level n"
      by blast
    have "search_loop h n (Some s) = search_loop h n (Some p)"
      using True p(2) by (subst search_loop.simps) simp
    then show ?thesis using r p(1) by auto
  next
    case False
    then have "search_loop h n (Some s) = Some (Inr s)"
      by (subst search_loop.simps) auto
    then show ?thesis using False by auto
  qed
qed


lemma attached_length: "length (fst (attached h n p)) = length h + 1"
  by (simp add: attached_def append_child_def)

lemma attached_node:
  "t \<le> length h \<Longrightarrow>
   tn_node (fst (attached h n p) ! t) = (if t = length h then n else tn_node (h ! t))"
  by (cases "t = p") (auto simp: attached_def append_child_def nth_append nth_list_update)

lemma attached_parent:
  "t \<le> length h \<Longrightarrow>
   tn_parent (fst (attached h n p) ! t) = (if t = length h then Some p else tn_parent (h ! t))"
  by (cases "t = p") (auto simp: attached_def append_child_def nth_append nth_list_update)

lemma attached_children:
  "p < length h \<Longrightarrow> t \<le> length h \<Longrightarrow>
   tn_children (fst (attached h n p) ! t)
     = (if t = p then tn_children (h ! p) @ [length h]
        else if t = length h then [] else tn_children (h ! t))"
  by (cases "t = p") (auto simp: attached_def append_child_def nth_append nth_list_update)

lemma attached_level:
  "t \<le> length h \<Longrightarrow>
   level_of (fst (attached h n p)) t = (if t = length h then node_level n else level_of h t)"
  by (simp add: level_of_def attached_node)

lemma attached_invariant:
  assumes inv: "build_invariant (h, ptr)"
    and p: "p < length h"
    and above: "level_of h p < node_level n"
    and same: "\<forall>c\<in>set (tn_children (h ! p)). level_of h c = node_level n"
  shows "build_invariant (attached h n p)"
proof -
  let ?h = "fst (attached h n p)"
  have tinv: "TreeNode_invariant h 0" and pos: "\<forall>t<length h. t \<noteq> 0 \<longrightarrow> 0 < level_of h t"
    using inv by (auto simp: build_invariant_def)
  have len: "length ?h = length h + 1" by (rule attached_length)
  have h0: "0 < length h" using p by (cases h) simp_all
  have root: "0 < length ?h \<and> tn_node (?h ! 0) = root_node \<and> tn_parent (?h ! 0) = None"
    using tinv h0 by (simp add: attached_length attached_node attached_parent TreeNode_invariant_def)
  have up: "\<exists>q<t. tn_parent (?h ! t) = Some q \<and> t \<in> set (tn_children (?h ! q))"
    if t: "t < length ?h" "t \<noteq> 0" for t
  proof (cases "t = length h")
    case True
    then show ?thesis using p by (auto simp: attached_parent attached_children)
  next
    case False
    then have tl: "t < length h" using t(1) len by simp
    from invariant_parent [OF tinv tl t(2)] obtain q where
      q: "q < t" "tn_parent (h ! t) = Some q" "t \<in> set (tn_children (h ! q))" by blast
    have "q \<le> length h" "q \<noteq> length h" using q(1) tl by auto
    then have "t \<in> set (tn_children (?h ! q))"
      using q(3) p by (auto simp: attached_children)
    then show ?thesis using q(1,2) tl by (auto simp: attached_parent)
  qed
  have down: "c < length ?h \<and> tn_parent (?h ! c) = Some q \<and> level_of ?h q < level_of ?h c"
    if q: "q < length ?h" and c: "c \<in> set (tn_children (?h ! q))" for q c
  proof -
    have ql: "q \<le> length h" using q len by simp
    have qn: "q \<noteq> length h" using c p ql by (auto simp: attached_children split: if_splits)
    then have q': "q < length h" using ql by simp
    show ?thesis
    proof (cases "c = length h")
      case True
      then have "q = p"
        using c p ql qn invariant_child [OF tinv q', of c]
        by (auto simp: attached_children split: if_splits)
      then show ?thesis using True above p by (simp add: attached_length attached_parent attached_level)
    next
      case False
      then have "c \<in> set (tn_children (h ! q))"
        using c p ql qn by (auto simp: attached_children split: if_splits)
      from invariant_child [OF tinv q' this] show ?thesis
        using q' by (simp add: attached_length attached_parent attached_level)
    qed
  qed
  have sib: "level_of ?h c = level_of ?h d"
    if q: "q < length ?h" and c: "c \<in> set (tn_children (?h ! q))"
      and d: "d \<in> set (tn_children (?h ! q))" for q c d
  proof -
    have ql: "q \<le> length h" using q len by simp
    have qn: "q \<noteq> length h" using c p ql by (auto simp: attached_children split: if_splits)
    then have q': "q < length h" using ql by simp
    have lev: "level_of ?h x = (if q = p then node_level n else level_of h x)
                \<and> (q \<noteq> p \<longrightarrow> x \<in> set (tn_children (h ! q)))"
      if x: "x \<in> set (tn_children (?h ! q))" for x
    proof (cases "x = length h")
      case True
      then have "q = p"
        using x p ql qn invariant_child [OF tinv q', of x]
        by (auto simp: attached_children split: if_splits)
      then show ?thesis using True by (simp add: attached_level)
    next
      case False
      then have xin: "x \<in> set (tn_children (h ! q))"
        using x p ql qn by (auto simp: attached_children split: if_splits)
      then have "x < length h" using invariant_child [OF tinv q'] by blast
      then show ?thesis using xin same by (auto simp: attached_level)
    qed
    show ?thesis
    proof (cases "q = p")
      case True
      then show ?thesis using lev [OF c] lev [OF d] by simp
    next
      case False
      then show ?thesis
        using lev [OF c] lev [OF d] invariant_siblings [OF tinv q'] by simp
    qed
  qed
  have tinv': "TreeNode_invariant ?h 0"
    unfolding TreeNode_invariant_def using root up down sib by blast
  have pos': "\<forall>t<length ?h. t \<noteq> 0 \<longrightarrow> 0 < level_of ?h t"
  proof (intro allI impI)
    fix t assume t: "t < length ?h" "t \<noteq> 0"
    show "0 < level_of ?h t"
    proof (cases "t = length h")
      case True
      have "0 \<le> level_of h p"
        using pos p invariant_root_level [OF tinv] by (cases "p = 0") (auto simp: less_imp_le)
      then show ?thesis using True above by (simp add: attached_level)
    next
      case False
      then show ?thesis using t pos len by (simp add: attached_level)
    qed
  qed
  have "snd (attached h n p) + 1 = length ?h" by (simp add: attached_def append_child_def)
  then show ?thesis unfolding build_invariant_def using tinv' pos' by blast
qed


lemma search_loop_None: "search_loop h n None = Some (Inl AttributeError)"
  by (subst search_loop.simps) simp

lemma last_has_no_children:
  assumes inv: "build_invariant (h, ptr)"
  shows "tn_children (h ! ptr) = []"
proof (rule ccontr)
  assume "tn_children (h ! ptr) \<noteq> []"
  then obtain c where c: "c \<in> set (tn_children (h ! ptr))" by (cases "tn_children (h ! ptr)") auto
  have tinv: "TreeNode_invariant h 0" and last: "ptr + 1 = length h"
    using inv by (auto simp: build_invariant_def)
  have ptr: "ptr < length h" using last by simp
  from invariant_child [OF tinv ptr c]
  have cl: "c < length h" and cp: "tn_parent (h ! c) = Some ptr" by auto
  have "c \<noteq> 0" using cp invariant_root_parent [OF tinv] by (cases "c = 0") simp_all
  from invariant_parent [OF tinv cl this] cp have "ptr < c" by auto
  then show False using cl last by simp
qed

lemma attach_child:
  "node_level n > level_of h ptr \<Longrightarrow> attach (h, ptr) n = Some (Inr (attached h n ptr))"
  by (simp add: attach_def TreeNode_init_def attached_def)

lemma attach_same:
  "node_level n = level_of h ptr \<Longrightarrow>
   attach (h, ptr) n =
     (case tn_parent (h ! ptr) of
        None \<Rightarrow> Some (Inl AttributeError)
      | Some p \<Rightarrow> Some (Inr (attached h n p)))"
  by (simp add: attach_def TreeNode_init_def attached_def split: option.splits)

lemma attach_lower:
  "node_level n < level_of h ptr \<Longrightarrow>
   attach (h, ptr) n =
     (case search_loop h n (tn_parent (h ! ptr)) of
        None \<Rightarrow> None
      | Some (Inl e) \<Rightarrow> Some (Inl e)
      | Some (Inr s) \<Rightarrow>
          if level_of h s = 0
          then Some (Inl (CopybookException (Could_not_find_parent n (tn_node (h ! ptr)))))
          else (case tn_parent (h ! s) of
                  None \<Rightarrow> Some (Inl AttributeError)
                | Some p \<Rightarrow> Some (Inr (attached h n p))))"
  by (simp add: attach_def TreeNode_init_def attached_def split: option.splits sum.splits)

lemma attach_success:
  assumes inv: "build_invariant (h, ptr)" and att: "attach (h, ptr) n = Some (Inr hp')"
  shows "\<exists>p<length h. level_of h p < node_level n
           \<and> (\<forall>c\<in>set (tn_children (h ! p)). level_of h c = node_level n)
           \<and> hp' = attached h n p"
proof -
  have tinv: "TreeNode_invariant h 0" and last: "ptr + 1 = length h"
    using inv by (auto simp: build_invariant_def)
  have ptr: "ptr < length h" using last by simp
  have sibling: "\<exists>p<length h. level_of h p < node_level n
           \<and> (\<forall>c\<in>set (tn_children (h ! p)). level_of h c = node_level n)
           \<and> tn_parent (h ! s) = Some p"
    if s: "s < length h" "s \<noteq> 0" "level_of h s = node_level n" for s
  proof -
    from invariant_parent [OF tinv s(1,2)] obtain p where
      p: "p < s" "tn_parent (h ! s) = Some p" "s \<in> set (tn_children (h ! p))" by blast
    have pl: "p < length h" using p(1) s(1) by simp
    have "level_of h p < node_level n" using invariant_child [OF tinv pl p(3)] s(3) by simp
    moreover have "\<forall>c\<in>set (tn_children (h ! p)). level_of h c = node_level n"
      using invariant_siblings [OF tinv pl _ p(3)] s(3) by simp
    ultimately show ?thesis using pl p(2) by blast
  qed
  consider (child) "node_level n > level_of h ptr"
    | (same) "node_level n = level_of h ptr"
    | (lower) "node_level n < level_of h ptr"
    by linarith
  then show ?thesis
  proof cases
    case child
    then have "hp' = attached h n ptr"
      using att by (simp add: attach_child)
    then show ?thesis using child ptr last_has_no_children [OF inv]
      by (intro exI [of _ ptr]) simp
  next
    case same
    then obtain p where p: "tn_parent (h ! ptr) = Some p" and hp': "hp' = attached h n p"
      using att by (cases "tn_parent (h ! ptr)") (simp_all add: attach_same)
    have "ptr \<noteq> 0" using p invariant_root_parent [OF tinv] by (cases "ptr = 0") simp_all
    from sibling [OF ptr this same [symmetric]] p hp' show ?thesis by auto
  next
    case lower
    note att3 = att [unfolded attach_lower [OF lower]]
    obtain r where r: "search_loop h n (tn_parent (h ! ptr)) = Some r"
      using att3 by (cases "search_loop h n (tn_parent (h ! ptr))") simp_all
    obtain s where s: "r = Inr s" using att3 r by (cases r) simp_all
    have nz: "level_of h s \<noteq> 0" using att3 r s by (cases "level_of h s = 0") simp_all
    obtain p where p: "tn_parent (h ! s) = Some p" and hp': "hp' = attached h n p"
      using att3 r s nz by (cases "tn_parent (h ! s)") simp_all
    obtain q where q: "tn_parent (h ! ptr) = Some q"
      using r s by (cases "tn_parent (h ! ptr)") (simp_all add: search_loop_None)
    have "ptr \<noteq> 0" using q invariant_root_parent [OF tinv] by (cases "ptr = 0") simp_all
    from invariant_parent [OF tinv ptr this] q have ql: "q < length h" using ptr by auto
    from search_loop_returns [OF tinv ql, of n] r s q
    have sl: "s < length h" and lev: "level_of h s = 0 \<or> level_of h s = node_level n"
      using ql by auto
    have "s \<noteq> 0" using nz invariant_root_level [OF tinv] by (cases "s = 0") auto
    from sibling [OF sl this] lev nz p hp' show ?thesis by auto
  qed
qed

lemma attach_returns:
  assumes inv: "build_invariant (h, ptr)"
  shows "\<exists>r. attach (h, ptr) n = Some r"
proof -
  have tinv: "TreeNode_invariant h 0" and last: "ptr + 1 = length h"
    using inv by (auto simp: build_invariant_def)
  have ptr: "ptr < length h" using last by simp
  have "\<exists>r. search_loop h n (tn_parent (h ! ptr)) = Some r"
  proof (cases "tn_parent (h ! ptr)")
    case None
    then show ?thesis by (simp add: search_loop_None)
  next
    case (Some q)
    have "ptr \<noteq> 0" using Some invariant_root_parent [OF tinv] by (cases "ptr = 0") simp_all
    from invariant_parent [OF tinv ptr this] Some have "q < length h" using ptr by auto
    from search_loop_returns [OF tinv this, of n] Some show ?thesis by auto
  qed
  then obtain r where r: "search_loop h n (tn_parent (h ! ptr)) = Some r" by blast
  show ?thesis
  proof (cases "node_level n > level_of h ptr")
    case True
    then show ?thesis by (simp add: attach_child)
  next
    case False
    note notgt = this
    show ?thesis
    proof (cases "node_level n = level_of h ptr")
      case True
      then show ?thesis
        by (cases "tn_parent (h ! ptr)") (simp_all add: attach_same)
    next
      case False
      then have lower: "node_level n < level_of h ptr" using notgt by simp
      show ?thesis
      proof (cases r)
        case (Inl e)
        then show ?thesis using r by (simp add: attach_lower [OF lower])
      next
        case (Inr s)
        then show ?thesis using r
          by (cases "tn_parent (h ! s)") (simp_all add: attach_lower [OF lower])
      qed
    qed
  qed
qed

lemma attach_invariant:
  assumes "build_invariant hp" and "attach hp n = Some (Inr hp')"
  shows "build_invariant hp' \<and> map tn_node (fst hp') = map tn_node (fst hp) @ [n]"
proof -
  obtain h ptr where hp: "hp = (h, ptr)" by (cases hp)
  from attach_success [OF assms [unfolded hp]] obtain p where
    p: "p < length h" "level_of h p < node_level n"
       "\<forall>c\<in>set (tn_children (h ! p)). level_of h c = node_level n" "hp' = attached h n p"
    by blast
  have "build_invariant hp'"
    using attached_invariant [OF assms(1) [unfolded hp] p(1,2,3)] p(4) by simp
  moreover have "map tn_node (fst hp') = map tn_node h @ [n]"
    unfolding p(4)
    by (rule nth_equalityI) (auto simp: attached_length attached_node nth_append)
  ultimately show ?thesis using hp by simp
qed

lemma build_loop_invariant:
  assumes "build_invariant hp" and "build_loop hp ns = Some (Inr hp')"
  shows "build_invariant hp' \<and> map tn_node (fst hp') = map tn_node (fst hp) @ ns"
  using assms
proof (induction ns arbitrary: hp)
  case Nil
  then show ?case by simp
next
  case (Cons n ns)
  from Cons.prems(2) obtain hp1 where
    1: "attach hp n = Some (Inr hp1)" and 2: "build_loop hp1 ns = Some (Inr hp')"
    by (auto split: option.splits sum.splits)
  from attach_invariant [OF Cons.prems(1) 1] Cons.IH [OF _ 2] show ?case by simp
qed

lemma build_loop_returns:
  assumes "build_invariant hp"
  shows "\<exists>r. build_loop hp ns = Some r"
  using assms
proof (induction ns arbitrary: hp)
  case Nil
  then show ?case by simp
next
  case (Cons n ns)
  obtain h ptr where hp: "hp = (h, ptr)" by (cases hp)
  from attach_returns [OF Cons.prems [unfolded hp], of n] obtain r where
    r: "attach hp n = Some r" using hp by auto
  show ?case
  proof (cases r)
    case (Inl e)
    then show ?thesis using r by simp
  next
    case (Inr hp1)
    then have "build_invariant hp1" using attach_invariant [OF Cons.prems] r by simp
    from Cons.IH [OF this] show ?thesis using r Inr by simp
  qed
qed


lemma build_node_tree_eq:
  "build_node_tree ns =
     (case build_loop initial ns of
        None \<Rightarrow> None
      | Some (Inl e) \<Rightarrow> Some (Inl e)
      | Some (Inr hp) \<Rightarrow> Some (Inr (fst hp, 0)))"
  by (simp add: build_node_tree_def initial_def TreeNode_init_def
           split: option.splits sum.splits prod.splits)

lemma build_node_tree_returns: "\<exists>r. build_node_tree ns = Some r"
  using build_loop_returns [OF build_invariant_initial, of ns]
  by (auto simp: build_node_tree_eq split: sum.splits)

lemma initial_nodes: "map tn_node (fst initial) = [root_node]"
  by (simp add: initial_def TreeNode_init_def)

text \<open>
  C8: a tree that \<open>build_node_tree\<close> returns satisfies the TreeNode invariant: it hangs
  under the one synthetic root of level 0, every child's level is strictly greater than its
  parent's, and the children of one parent share one level. Its objects carry the root node
  and the nodes of the list, in order.
\<close>

theorem build_node_tree_invariant:
  assumes "build_node_tree ns = Some (Inr (h, root))"
  shows "TreeNode_invariant h root \<and> map tn_node h = root_node # ns"
proof -
  from assms obtain ptr where b: "build_loop initial ns = Some (Inr (h, ptr))" and r: "root = 0"
    by (auto simp: build_node_tree_eq split: option.splits sum.splits)
  from build_loop_invariant [OF build_invariant_initial b] r show ?thesis
    by (simp add: build_invariant_def initial_nodes)
qed

theorem build_node_tree_invariant_witness:
  "(case build_node_tree sample_nodes of
      Some (Inr (h, root)) \<Rightarrow> TreeNode_invariant h root \<and> map tn_node h = root_node # sample_nodes
    | _ \<Rightarrow> False)"
proof -
  have "case build_node_tree sample_nodes of Some (Inr hr) \<Rightarrow> True | _ \<Rightarrow> False"
    by code_simp
  then obtain h root where b: "build_node_tree sample_nodes = Some (Inr (h, root))"
    by (auto split: option.splits sum.splits)
  from build_node_tree_invariant [OF b] show ?thesis using b by simp
qed

text \<open>
  C10: a first node of level 0 takes the branch for a sibling of \<open>ptr\<close>, which is the root
  and has no parent: \<open>build_node_tree\<close> raises \<open>AttributeError\<close>, not its
  \<open>CopybookException\<close>. And no list that holds a node of level 0 yields a tree:
  \<open>build_node_tree\<close> raises on every one of them.
\<close>

theorem level_zero_never_attached:
  assumes "node_level n = 0"
  shows "build_node_tree (n # ns) = Some (Inl AttributeError)
     \<and> (\<forall>pre post. \<exists>e. build_node_tree (pre @ n # post) = Some (Inl e))"
proof -
  have "level_of (fst initial) (snd initial) = 0" "tn_parent (fst initial ! snd initial) = None"
    by (simp_all add: initial_def TreeNode_init_def level_of_root)
  then have "attach initial n = Some (Inl AttributeError)"
    using assms attach_same [of n "fst initial" "snd initial"] by simp
  then have first: "build_node_tree (n # ns) = Some (Inl AttributeError)"
    by (simp add: build_node_tree_eq)
  have "\<exists>e. build_node_tree (pre @ n # post) = Some (Inl e)" for pre post
  proof -
    obtain r where r: "build_node_tree (pre @ n # post) = Some r"
      using build_node_tree_returns by blast
    show ?thesis
    proof (cases r)
      case (Inl e)
      then show ?thesis using r by simp
    next
      case (Inr hr)
      then obtain h ptr where b: "build_loop initial (pre @ n # post) = Some (Inr (h, ptr))"
        using r by (auto simp: build_node_tree_eq split: option.splits sum.splits)
      from build_loop_invariant [OF build_invariant_initial b]
      have pos: "\<forall>t<length h. t \<noteq> 0 \<longrightarrow> 0 < level_of h t"
        and nodes: "map tn_node h = root_node # pre @ n # post"
        by (simp_all add: build_invariant_def initial_nodes)
      have len: "length h = length (root_node # pre @ n # post)"
        using nodes by (metis length_map)
      have k: "length pre + 1 < length h" using len by simp
      then have "tn_node (h ! (length pre + 1)) = map tn_node h ! (length pre + 1)"
        by simp
      then have "tn_node (h ! (length pre + 1)) = n"
        unfolding nodes by (simp add: nth_append)
      then have "level_of h (length pre + 1) = 0"
        using assms by (simp add: level_of_def)
      moreover have "0 < level_of h (length pre + 1)" using pos k by simp
      ultimately show ?thesis by simp
    qed
  qed
  then show ?thesis using first by blast
qed

theorem level_zero_never_attached_witness:
  "build_node_tree [Node_init ''Z'' 0 N_RECORD, Node_init ''A'' 1 N_RECORD]
     = Some (Inl AttributeError)
   \<and> (\<exists>e. build_node_tree ([Node_init ''A'' 1 N_RECORD] @ Node_init ''Z'' 0 N_RECORD # [])
           = Some (Inl e))"
proof -
  have "node_level (Node_init ''Z'' 0 N_RECORD) = 0" by (simp add: Node_init_def)
  from level_zero_never_attached [OF this, of "[Node_init ''A'' 1 N_RECORD]"]
  show ?thesis by blast
qed

lemma ancestor_less:
  assumes inv: "TreeNode_invariant h 0"
  shows "ancestor h a t \<Longrightarrow> t < length h \<Longrightarrow> a < t"
proof (induction rule: ancestor.induct)
  case (parent t p)
  have "t \<noteq> 0" using parent(1) invariant_root_parent [OF inv] by (cases "t = 0") simp_all
  from invariant_parent [OF inv parent(2) this] parent(1) show ?case by auto
next
  case (above t p a)
  have "t \<noteq> 0" using above(1) invariant_root_parent [OF inv] by (cases "t = 0") simp_all
  from invariant_parent [OF inv above(4) this] above(1) have "p < t" by auto
  then show ?case using above(3,4) by simp
qed

lemma parent_level:
  assumes inv: "TreeNode_invariant h 0" and t: "t < length h"
    and p: "tn_parent (h ! t) = Some p"
  shows "p < t \<and> level_of h p < level_of h t"
proof -
  have "t \<noteq> 0" using p invariant_root_parent [OF inv] by (cases "t = 0") simp_all
  from invariant_parent [OF inv t this] p
  have pt: "p < t" and c: "t \<in> set (tn_children (h ! p))" by auto
  have "p < length h" using pt t by simp
  from invariant_child [OF inv this c] pt show ?thesis by simp
qed

lemma ancestor_level:
  assumes inv: "TreeNode_invariant h 0"
  shows "ancestor h a t \<Longrightarrow> t < length h \<Longrightarrow> level_of h a < level_of h t"
proof (induction rule: ancestor.induct)
  case (parent t p)
  then show ?case using parent_level [OF inv] by blast
next
  case (above t p a)
  from parent_level [OF inv above(4,1)] have "p < t" "level_of h p < level_of h t" by auto
  then show ?case using above(3,4) by simp
qed

lemma search_loop_found:
  assumes inv: "build_invariant (h, ptr)"
  shows "ancestor h a t \<Longrightarrow> t < length h \<Longrightarrow> level_of h a = node_level n \<Longrightarrow> a \<noteq> 0 \<Longrightarrow>
         search_loop h n (tn_parent (h ! t)) = Some (Inr a)"
proof (induction rule: ancestor.induct)
  case (parent t p)
  then show ?case by (subst search_loop.simps) simp
next
  case (above t p a)
  have tinv: "TreeNode_invariant h 0" using inv by (simp add: build_invariant_def)
  from parent_level [OF tinv above(4,1)] have pl: "p < length h" using above(4) by simp
  have "level_of h a < level_of h p" using ancestor_level [OF tinv above(2) pl] .
  moreover have "0 < level_of h a"
    using inv ancestor_less [OF tinv above(2) pl] pl above(6)
    by (simp add: build_invariant_def)
  ultimately have "level_of h p \<noteq> 0 \<and> level_of h p \<noteq> node_level n"
    using above(5) by simp
  then have "search_loop h n (Some p) = search_loop h n (tn_parent (h ! p))"
    by (subst search_loop.simps) simp
  then show ?case using above(1) above.IH [OF pl above(5,6)] by simp
qed

lemma search_loop_root:
  assumes inv: "build_invariant (h, ptr)"
  shows "t < length h \<Longrightarrow> t \<noteq> 0 \<Longrightarrow>
         \<forall>a. ancestor h a t \<and> a \<noteq> 0 \<longrightarrow> level_of h a \<noteq> node_level n \<Longrightarrow>
         search_loop h n (tn_parent (h ! t)) = Some (Inr 0)"
proof (induction t rule: less_induct)
  case (less t)
  have tinv: "TreeNode_invariant h 0" using inv by (simp add: build_invariant_def)
  from invariant_parent [OF tinv less.prems(1,2)] obtain p where
    p: "p < t" "tn_parent (h ! t) = Some p" by blast
  have pl: "p < length h" using p(1) less.prems(1) by simp
  show ?case
  proof (cases "p = 0")
    case True
    have "search_loop h n (Some 0) = Some (Inr 0)"
      using invariant_root_level [OF tinv] by (subst search_loop.simps) simp
    then show ?thesis using p(2) True by simp
  next
    case False
    have anc: "ancestor h p t" using p(2) by (rule ancestor.parent)
    then have "level_of h p \<noteq> node_level n" using less.prems(3) False by blast
    moreover have "level_of h p \<noteq> 0"
      using inv pl False by (auto simp: build_invariant_def)
    ultimately have "search_loop h n (Some p) = search_loop h n (tn_parent (h ! p))"
      by (subst search_loop.simps) simp
    moreover have "\<forall>a. ancestor h a p \<and> a \<noteq> 0 \<longrightarrow> level_of h a \<noteq> node_level n"
      using less.prems(3) ancestor.above [OF p(2)] by blast
    ultimately show ?thesis using less.IH [OF p(1) pl False] p(2) by simp
  qed
qed

text \<open>
  C4, as the code has it. Let the builder have processed a node list and stand at \<open>ptr\<close>,
  and let the next node \<open>n\<close> have a level lower than that of \<open>ptr\<close> (and not negative:
  levels are level numbers). If an ancestor of \<open>ptr\<close> other than the root has the level of
  \<open>n\<close>, then \<open>n\<close> becomes a child of that ancestor's parent, however many levels lie in
  between, and the new object is the next \<open>ptr\<close>. If no ancestor below the root has that
  level, as is always so for an \<open>n\<close> of level 0, the search ends at the root and the
  builder raises its \<open>CopybookException\<close>.
\<close>

theorem lower_level_attaches_beside_ancestor:
  assumes reach: "build_loop initial ns = Some (Inr (h, ptr))"
    and lower: "node_level n < level_of h ptr"
    and nonneg: "0 \<le> node_level n"
  shows "(\<forall>a. ancestor h a ptr \<and> a \<noteq> 0 \<and> level_of h a = node_level n \<longrightarrow>
            (\<exists>p. tn_parent (h ! a) = Some p
               \<and> attach (h, ptr) n = Some (Inr (attached h n p))))
     \<and> ((\<forall>a. ancestor h a ptr \<and> a \<noteq> 0 \<longrightarrow> level_of h a \<noteq> node_level n) \<longrightarrow>
           attach (h, ptr) n
             = Some (Inl (CopybookException (Could_not_find_parent n (tn_node (h ! ptr))))))"
proof -
  have inv: "build_invariant (h, ptr)"
    using build_loop_invariant [OF build_invariant_initial reach] by simp
  then have tinv: "TreeNode_invariant h 0" and last: "ptr + 1 = length h"
    by (auto simp: build_invariant_def)
  have ptr: "ptr < length h" using last by simp
  have ptr0: "ptr \<noteq> 0"
    using lower nonneg invariant_root_level [OF tinv] by (cases "ptr = 0") simp_all
  have found: "\<exists>p. tn_parent (h ! a) = Some p
               \<and> attach (h, ptr) n = Some (Inr (attached h n p))"
    if a: "ancestor h a ptr" "a \<noteq> 0" "level_of h a = node_level n" for a
  proof -
    have s: "search_loop h n (tn_parent (h ! ptr)) = Some (Inr a)"
      using search_loop_found [OF inv a(1) ptr a(3) a(2)] .
    have al: "a < length h" using ancestor_less [OF tinv a(1) ptr] ptr by simp
    from invariant_parent [OF tinv al a(2)] obtain p where p: "tn_parent (h ! a) = Some p"
      by blast
    have "level_of h a \<noteq> 0" using inv al a(2) by (auto simp: build_invariant_def)
    then have "attach (h, ptr) n = Some (Inr (attached h n p))"
      using s p by (simp add: attach_lower [OF lower])
    then show ?thesis using p by simp
  qed
  have missing: "attach (h, ptr) n
             = Some (Inl (CopybookException (Could_not_find_parent n (tn_node (h ! ptr)))))"
    if "\<forall>a. ancestor h a ptr \<and> a \<noteq> 0 \<longrightarrow> level_of h a \<noteq> node_level n"
  proof -
    have "search_loop h n (tn_parent (h ! ptr)) = Some (Inr 0)"
      using search_loop_root [OF inv ptr ptr0 that] .
    then show ?thesis
      using invariant_root_level [OF tinv] by (simp add: attach_lower [OF lower])
  qed
  show ?thesis using found missing by blast
qed


theorem lower_level_attaches_beside_ancestor_witness:
  "build_loop initial (take 3 sample_nodes) = Some (Inr (sample_store, 3))
   \<and> ancestor sample_store 2 3
   \<and> attach (sample_store, 3) (Node_init ''D'' 5 N_RECORD)
       = Some (Inr (attached sample_store (Node_init ''D'' 5 N_RECORD) 1))
   \<and> attach (sample_store, 3) (Node_init ''E'' 7 N_RECORD)
       = Some (Inl (CopybookException
           (Could_not_find_parent (Node_init ''E'' 7 N_RECORD) (Node_init ''C'' 10 N_RECORD))))"
proof -
  have reach: "build_loop initial (take 3 sample_nodes) = Some (Inr (sample_store, 3))"
    by code_simp
  have inv: "TreeNode_invariant sample_store 0"
    using build_loop_invariant [OF build_invariant_initial reach]
    by (simp add: build_invariant_def)
  have len: "3 < length sample_store" by code_simp
  have l1: "level_of sample_store 1 = 1" by code_simp
  have l2: "level_of sample_store 2 = 5" by code_simp
  have l3: "level_of sample_store 3 = 10" by code_simp
  have c: "tn_node (sample_store ! 3) = Node_init ''C'' 10 N_RECORD" by code_simp
  have p3: "tn_parent (sample_store ! 3) = Some 2" by code_simp
  have p2: "tn_parent (sample_store ! 2) = Some 1" by code_simp
  have anc: "ancestor sample_store 2 3" using p3 by (rule ancestor.parent)
  have d: "node_level (Node_init ''D'' 5 N_RECORD) = 5"
    and e: "node_level (Node_init ''E'' 7 N_RECORD) = 7"
    by (simp_all add: Node_init_def)
  have "\<exists>p. tn_parent (sample_store ! 2) = Some p
          \<and> attach (sample_store, 3) (Node_init ''D'' 5 N_RECORD)
              = Some (Inr (attached sample_store (Node_init ''D'' 5 N_RECORD) p))"
    using lower_level_attaches_beside_ancestor
            [OF reach, of "Node_init ''D'' 5 N_RECORD"] anc d l2 l3
    by simp
  then have found: "attach (sample_store, 3) (Node_init ''D'' 5 N_RECORD)
       = Some (Inr (attached sample_store (Node_init ''D'' 5 N_RECORD) 1))"
    using p2 by auto
  have none: "\<forall>a. ancestor sample_store a 3 \<and> a \<noteq> 0
                 \<longrightarrow> level_of sample_store a \<noteq> node_level (Node_init ''E'' 7 N_RECORD)"
  proof (intro allI impI)
    fix a assume a: "ancestor sample_store a 3 \<and> a \<noteq> 0"
    then have "a < 3" using ancestor_less [OF inv _ len] by blast
    then have "a = 1 \<or> a = 2" using a by auto
    then show "level_of sample_store a \<noteq> node_level (Node_init ''E'' 7 N_RECORD)"
      using l1 l2 e by auto
  qed
  have "attach (sample_store, 3) (Node_init ''E'' 7 N_RECORD)
       = Some (Inl (CopybookException
           (Could_not_find_parent (Node_init ''E'' 7 N_RECORD) (tn_node (sample_store ! 3)))))"
    using lower_level_attaches_beside_ancestor
            [OF reach, of "Node_init ''E'' 7 N_RECORD"] none e l3
    by simp
  then show ?thesis using reach anc found c by simp
qed

text \<open>
  C4, as the claim states it, fails for a node of level 0. After the node A of level 1,
  the next node Z of level 0 is lower than \<open>ptr\<close>, and the nearest ancestor of its level is
  the root; Z is not attached to anything: the builder raises its \<open>CopybookException\<close>.
\<close>

theorem level_zero_below_cursor_counterexample:
  "build_loop initial [Node_init ''A'' 1 N_RECORD] = Some (Inr (store_A, 1))
   \<and> node_level (Node_init ''Z'' 0 N_RECORD) < level_of store_A 1
   \<and> ancestor store_A 0 1
   \<and> level_of store_A 0 = node_level (Node_init ''Z'' 0 N_RECORD)
   \<and> attach (store_A, 1) (Node_init ''Z'' 0 N_RECORD)
       = Some (Inl (CopybookException
           (Could_not_find_parent (Node_init ''Z'' 0 N_RECORD) (Node_init ''A'' 1 N_RECORD))))
   \<and> build_node_tree [Node_init ''A'' 1 N_RECORD, Node_init ''Z'' 0 N_RECORD]
       = Some (Inl (CopybookException
           (Could_not_find_parent (Node_init ''Z'' 0 N_RECORD) (Node_init ''A'' 1 N_RECORD))))"
proof -
  have "tn_parent (store_A ! 1) = Some 0" by code_simp
  then have anc: "ancestor store_A 0 1" by (rule ancestor.parent)
  have rest: "build_loop initial [Node_init ''A'' 1 N_RECORD] = Some (Inr (store_A, 1))
   \<and> node_level (Node_init ''Z'' 0 N_RECORD) < level_of store_A 1
   \<and> level_of store_A 0 = node_level (Node_init ''Z'' 0 N_RECORD)
   \<and> attach (store_A, 1) (Node_init ''Z'' 0 N_RECORD)
       = Some (Inl (CopybookException
           (Could_not_find_parent (Node_init ''Z'' 0 N_RECORD) (Node_init ''A'' 1 N_RECORD))))
   \<and> build_node_tree [Node_init ''A'' 1 N_RECORD, Node_init ''Z'' 0 N_RECORD]
       = Some (Inl (CopybookException
           (Could_not_find_parent (Node_init ''Z'' 0 N_RECORD) (Node_init ''A'' 1 N_RECORD))))"
    by code_simp
  show ?thesis using anc rest by blast
qed


section \<open>The copybook tokenizer\<close>

lemma spec_tokens_run:
  assumes "list_all is_text_char acc" and "acc \<noteq> []"
  shows "spec_tokens line (acc @ cs) =
     (T_TEXT, acc @ takeWhile is_text_char cs,
        (case dropWhile is_text_char cs of
           [] \<Rightarrow> line
         | d # ds \<Rightarrow> if d = newline then line + 1 else line))
     # spec_tokens line (dropWhile is_text_char cs)"
proof -
  obtain a as where acc: "acc = a # as" using assms(2) by (cases acc) auto
  have a: "is_text_char a" and as: "\<And>x. x \<in> set as \<Longrightarrow> is_text_char x"
    using assms(1) by (auto simp: acc list_all_iff)
  have tw: "takeWhile is_text_char (a # as @ cs) = a # as @ takeWhile is_text_char cs"
    using a as by (simp add: takeWhile_append2)
  have dw: "dropWhile is_text_char (a # as @ cs) = dropWhile is_text_char cs"
    using a as by (simp add: dropWhile_append2)
  have na: "a \<noteq> CHR ''.''" "a \<noteq> newline" "\<not> is_blank a"
    using a by (auto simp: is_text_char_def is_blank_def)
  show ?thesis unfolding acc using na tw dw by simp
qed

lemma char_classes:
  "\<not> is_blank (CHR ''.'')" "CHR ''.'' \<noteq> newline" "newline \<noteq> CHR ''.''"
  "is_blank newline" "\<not> is_text_char newline" "\<not> is_text_char (CHR ''.'')"
  by (simp_all add: is_blank_def is_text_char_def newline_def tab_def)

lemma tokenize_step_expected:
  assumes "tokenizing v"
  shows "\<exists>v'. tokenize_step c v = Inr v' \<and> tokenizing v'
     \<and> map described (t_tokens v') @ expected v' cs
         = map described (t_tokens v) @ expected v (c # cs)
     \<and> t_line v' = t_line v + (if c = newline then 1 else 0)"
proof -
  have acc: "list_all is_text_char (s_token v)" using assms by (simp add: tokenizing_def)
  consider (dot) "c = CHR ''.''" | (nl) "c = newline" | (blank) "is_blank c" "c \<noteq> newline"
    | (letter) "is_text_char c"
    by (auto simp: is_text_char_def)
  then show ?thesis
  proof cases
    case dot
    note [simp] = char_classes
    show ?thesis
    proof (cases "t_state v = TS_START")
      case True
      show ?thesis
      proof (cases "s_token v = []")
        case e: True
        then show ?thesis using True dot
          by (simp add: tokenize_step_def flush_def period_def expected_def tokenizing_def
                described_def Token_init_def)
      next
        case False
        then show ?thesis using True dot spec_tokens_run [OF acc False, of "t_line v" "c # cs"]
          by (simp add: tokenize_step_def flush_def period_def expected_def tokenizing_def
                described_def Token_init_def)
      qed
    next
      case False
      then have ws: "t_state v = TS_WS" using assms by (simp add: tokenizing_def)
      show ?thesis using ws dot
        by (simp add: tokenize_step_def flush_def period_def expected_def tokenizing_def
              described_def Token_init_def Let_def)
    qed
  next
    case nl
    note [simp] = char_classes
    show ?thesis
    proof (cases "t_state v = TS_START")
      case True
      show ?thesis
      proof (cases "s_token v = []")
        case e: True
        then show ?thesis using True nl
          by (simp add: tokenize_step_def flush_def expected_def tokenizing_def)
      next
        case False
        then show ?thesis using True nl spec_tokens_run [OF acc False, of "t_line v" "c # cs"]
          by (simp add: tokenize_step_def flush_def expected_def tokenizing_def acc)
      qed
    next
      case False
      then have ws: "t_state v = TS_WS" using assms by (simp add: tokenizing_def)
      show ?thesis using ws nl
        by (simp add: tokenize_step_def flush_def expected_def tokenizing_def
              described_def Token_init_def Let_def)
    qed
  next
    case blank
    have [simp]: "\<not> is_text_char c" "c \<noteq> CHR ''.''"
      using blank by (auto simp: is_blank_def is_text_char_def newline_def tab_def)
    show ?thesis
    proof (cases "t_state v = TS_START")
      case True
      show ?thesis
      proof (cases "s_token v = []")
        case e: True
        then show ?thesis using True blank
          by (simp add: tokenize_step_def flush_def expected_def tokenizing_def)
      next
        case False
        then show ?thesis using True blank spec_tokens_run [OF acc False, of "t_line v" "c # cs"]
          by (simp add: tokenize_step_def flush_def expected_def tokenizing_def acc)
      qed
    next
      case False
      then have ws: "t_state v = TS_WS" using assms by (simp add: tokenizing_def)
      show ?thesis using ws blank
        by (simp add: tokenize_step_def flush_def expected_def tokenizing_def
              described_def Token_init_def Let_def)
    qed
  next
    case letter
    have [simp]: "\<not> is_blank c" "c \<noteq> CHR ''.''" "c \<noteq> newline"
      using letter by (auto simp: is_text_char_def is_blank_def)
    show ?thesis
    proof (cases "t_state v = TS_START")
      case True
      then show ?thesis using letter acc
        by (simp add: tokenize_step_def expected_def tokenizing_def)
    next
      case False
      then have ws: "t_state v = TS_WS" using assms by (simp add: tokenizing_def)
      show ?thesis using ws letter
        by (simp add: tokenize_step_def flush_def expected_def tokenizing_def
              described_def Token_init_def Let_def cong: list.case_cong if_cong)
    qed
  qed
qed


lemma tokenize_loop_expected:
  assumes "tokenizing v"
  shows "\<exists>v'. tokenize_loop cs v = Inr v' \<and> tokenizing v'
     \<and> map described (t_tokens v') @ expected v' []
         = map described (t_tokens v) @ expected v cs
     \<and> t_line v' = t_line v + int (count_list cs newline)"
  using assms
proof (induction cs arbitrary: v)
  case Nil
  then show ?case by simp
next
  case (Cons c cs)
  from tokenize_step_expected [OF Cons.prems, of c cs] obtain v1 where
    1: "tokenize_step c v = Inr v1" "tokenizing v1"
       "map described (t_tokens v1) @ expected v1 cs
          = map described (t_tokens v) @ expected v (c # cs)"
       "t_line v1 = t_line v + (if c = newline then 1 else 0)"
    by blast
  from Cons.IH [OF 1(2)] obtain v' where
    2: "tokenize_loop cs v1 = Inr v'" "tokenizing v'"
       "map described (t_tokens v') @ expected v' []
          = map described (t_tokens v1) @ expected v1 cs"
       "t_line v' = t_line v1 + int (count_list cs newline)"
    by blast
  show ?case using 1 2 by simp
qed

lemma flush_expected:
  assumes "tokenizing v"
  shows "map described (t_tokens (flush v)) = map described (t_tokens v) @ expected v []"
proof (cases "s_token v = []")
  case True
  then show ?thesis by (simp add: flush_def expected_def)
next
  case False
  have "list_all is_text_char (s_token v)" using assms by (simp add: tokenizing_def)
  from spec_tokens_run [OF this False, of "t_line v" "[]"] False show ?thesis
    by (simp add: flush_def expected_def described_def Token_init_def)
qed

lemma spec_tokens_no_EOF: "T_EOF \<notin> fst ` set (spec_tokens line s)"
  by (induction line s rule: spec_tokens.induct) auto

text \<open>
  C7, as the code has it. On every text \<open>tokenize\<close> returns, in source order, a TEXT
  token for each maximal run of characters other than space, tab, newline and period and a
  PERIOD token for each period, then one EOF token, the only one. Every newline increments
  the line counter, and a token carries the counter's value at the moment it is appended:
  a period the line it stands on, a run the line on which it is closed (its own, or the
  next when a newline ends it), the EOF token the line the text ends on.
\<close>

theorem tokenize_tokens:
  "\<exists>tokens. tokenize s = Inr tokens
     \<and> map described tokens
         = spec_tokens 1 s @ [(T_EOF, ''(eof)'', 1 + int (count_list s newline))]
     \<and> length (filter (\<lambda>t. tk_enum t = T_EOF) tokens) = 1"
proof -
  let ?v = "\<lparr>t_line = 1, t_col = 1, t_state = TS_START, t_tokens = [], s_token = []\<rparr>"
  have start: "tokenizing ?v" by (simp add: tokenizing_def)
  from tokenize_loop_expected [OF start, of s] obtain v' where
    v': "tokenize_loop s ?v = Inr v'" "tokenizing v'"
        "map described (t_tokens v') @ expected v' [] = expected ?v s"
        "t_line v' = 1 + int (count_list s newline)"
    by auto
  let ?tokens = "t_tokens (flush v') @ [Token_init T_EOF ''(eof)'' (t_line v') (t_col v')]"
  have t: "tokenize s = Inr ?tokens" using v'(1) by (simp add: tokenize_def)
  have d: "map described ?tokens
         = spec_tokens 1 s @ [(T_EOF, ''(eof)'', 1 + int (count_list s newline))]"
    using flush_expected [OF v'(2)] v'(3,4)
    by (simp add: expected_def described_def Token_init_def)
  have "filter (\<lambda>x. fst x = T_EOF) (map described ?tokens)
          = [(T_EOF, ''(eof)'', 1 + int (count_list s newline))]"
    unfolding d using spec_tokens_no_EOF [of 1 s] by (force simp: filter_empty_conv)
  then have "length (filter (\<lambda>x. fst x = T_EOF) (map described ?tokens)) = 1" by simp
  moreover have "filter (\<lambda>x. fst x = T_EOF) (map described ?tokens)
      = map described (filter (\<lambda>t. tk_enum t = T_EOF) ?tokens)"
    by (simp add: filter_map comp_def described_def)
  ultimately have "length (filter (\<lambda>t. tk_enum t = T_EOF) ?tokens) = 1"
    by (metis length_map)
  then show ?thesis using t d by blast
qed

text \<open>
  C7, as the claim states it, fails: tokens do not carry their source position. In the
  text of two newlines and \<open>B\<close>, the second newline is read in the whitespace state,
  which does not reset the column, and \<open>B\<close>, alone on line 3, gets column 3. In the text
  \<open>A\<close>, newline, \<open>B\<close>, the token \<open>A\<close> of line 1 is appended after the newline has
  been counted and gets line 2.
\<close>

theorem tokenize_position_counterexample:
  "tokenize [newline, newline, CHR ''B'']
     = Inr [Token_init T_TEXT ''B'' 3 3, Token_init T_EOF ''(eof)'' 3 3]
   \<and> tokenize (''A'' @ [newline] @ ''B'')
     = Inr [Token_init T_TEXT ''A'' 2 1, Token_init T_TEXT ''B'' 2 2,
            Token_init T_EOF ''(eof)'' 2 2]"
  by code_simp

end
